theory Spec2Isabelle
  imports Complex_Main
begin

section \<open>JavaScript numbers\<close>

text \<open>
  The scripts keep their animation state (\<open>uTime.value\<close>, \<open>rotation.y\<close>,
  \<open>camera.aspect\<close>) in JavaScript numbers, which are IEEE 754 binary64 values. A finite
  number is modelled by the real number it denotes; every arithmetic result is rounded to the
  nearest binary64 value, ties to even, with gradual underflow below \<open>2^-1022\<close> and
  overflow to an infinity above the largest finite value. The sign of a zero is not
  tracked: none of the operations below can observe it on the values the scripts feed
  them.
\<close>

datatype jsnum = Num real | PosInfinity | NegInfinity | NaN

function bitlength :: "int \<Rightarrow> int" where
  "bitlength n = (if n \<le> 0 then 0 else 1 + bitlength (n div 2))"
  by pat_completeness auto
termination
  by (relation "measure nat") auto

declare bitlength.simps [simp del]

definition pow2 :: "int \<Rightarrow> real" where
  "pow2 e = (if 0 \<le> e then 2 ^ nat e else 1 / 2 ^ nat (- e))"

definition floor_log2 :: "real \<Rightarrow> int" where
  \<comment> \<open>for \<open>q > 0\<close>: the binary exponent \<open>e\<close> with \<open>2^e \<le> q < 2^(e+1)\<close>\<close>
  "floor_log2 q = (if 1 \<le> q then bitlength \<lfloor>q\<rfloor> - 1 else - bitlength (\<lceil>1 / q\<rceil> - 1))"

definition round_half_even :: "real \<Rightarrow> int" where
  "round_half_even m = (let n = \<lfloor>m\<rfloor>; r = m - of_int n
     in if r < 1 / 2 then n else if 1 / 2 < r then n + 1
        else if even n then n else n + 1)"

definition fl :: "real \<Rightarrow> jsnum" where
  \<comment> \<open>rounding of an exact result to binary64: 53 significant bits, exponents -1022..1023\<close>
  "fl q = (if q = 0 then Num 0 else
     (let a = \<bar>q\<bar>;
          e = max (floor_log2 a) (- 1022);
          u = pow2 (e - 52);
          n = round_half_even (a / u);
          e' = (if n = 9007199254740992 then e + 1 else e)
      in if 1023 < e' then (if 0 < q then PosInfinity else NegInfinity)
         else Num (if 0 < q then of_int n * u else - (of_int n * u))))"

fun js_add :: "jsnum \<Rightarrow> jsnum \<Rightarrow> jsnum" where
  "js_add (Num x) (Num y) = fl (x + y)"
| "js_add NaN _ = NaN"
| "js_add _ NaN = NaN"
| "js_add PosInfinity NegInfinity = NaN"
| "js_add NegInfinity PosInfinity = NaN"
| "js_add PosInfinity _ = PosInfinity"
| "js_add NegInfinity _ = NegInfinity"
| "js_add _ PosInfinity = PosInfinity"
| "js_add _ NegInfinity = NegInfinity"

fun js_div :: "jsnum \<Rightarrow> jsnum \<Rightarrow> jsnum" where
  "js_div (Num x) (Num y) =
     (if y = 0 then (if x = 0 then NaN else if 0 < x then PosInfinity else NegInfinity)
      else fl (x / y))"
| "js_div NaN _ = NaN"
| "js_div _ NaN = NaN"
| "js_div (Num x) _ = Num 0"
| "js_div PosInfinity (Num y) = (if 0 \<le> y then PosInfinity else NegInfinity)"
| "js_div NegInfinity (Num y) = (if 0 \<le> y then NegInfinity else PosInfinity)"
| "js_div _ _ = NaN"

fun js_min :: "jsnum \<Rightarrow> jsnum \<Rightarrow> jsnum" where
  \<comment> \<open>\<open>Math.min\<close> of two arguments\<close>
  "js_min NaN _ = NaN"
| "js_min _ NaN = NaN"
| "js_min NegInfinity _ = NegInfinity"
| "js_min _ NegInfinity = NegInfinity"
| "js_min PosInfinity b = b"
| "js_min a PosInfinity = a"
| "js_min (Num x) (Num y) = Num (min x y)"


section \<open>The render loops\<close>

text \<open>
  Each \<open>tick\<close> is a sequence of statements on the module's objects followed by calls into
  the rendering library and the browser. The state keeps the numbers a tick writes and
  the list of steps performed so far, oldest first.
\<close>

datatype step =
    ReadElapsedTime
  | UpdateUniform nat
  | RotatePyramid
  | ControlsUpdate
  | Render
  | RequestAnimationFrame

record pyramid_state =
  mat0_uTime :: jsnum
  mat3_uTime :: jsnum
  rotation_y :: jsnum
  steps :: "step list"

definition pyramid_init :: pyramid_state where
  \<comment> \<open>\<open>uniforms: { uTime: { value: 0.0 } }\<close> for materials 0 and 3; a new mesh is unrotated\<close>
  "pyramid_init = \<lparr>mat0_uTime = Num 0, mat3_uTime = Num 0, rotation_y = Num 0, steps = []\<rparr>"

definition pyramid_tick :: "pyramid_state \<Rightarrow> pyramid_state" where
  "pyramid_tick s =
     (let s1 = s\<lparr>mat0_uTime := js_add (mat0_uTime s) (fl (1 / 100)),
                 steps := steps s @ [UpdateUniform 0]\<rparr>;
          s2 = s1\<lparr>mat3_uTime := js_add (mat3_uTime s1) (fl (1 / 100)),
                  steps := steps s1 @ [UpdateUniform 3]\<rparr>;
          s3 = s2\<lparr>rotation_y := js_add (rotation_y s2) (fl (1 / 100)),
                  steps := steps s2 @ [RotatePyramid]\<rparr>;
          s4 = s3\<lparr>steps := steps s3 @ [ControlsUpdate]\<rparr>;
          s5 = s4\<lparr>steps := steps s4 @ [Render]\<rparr>
      in s5\<lparr>steps := steps s5 @ [RequestAnimationFrame]\<rparr>)"

primrec pyramid_ticks :: "nat \<Rightarrow> pyramid_state \<Rightarrow> pyramid_state" where
  "pyramid_ticks 0 s = s"
| "pyramid_ticks (Suc n) s = pyramid_tick (pyramid_ticks n s)"

record sun_state =
  sun_uTime :: jsnum
  sun_steps :: "step list"

definition sun_init :: sun_state where
  "sun_init = \<lparr>sun_uTime = Num 0, sun_steps = []\<rparr>"

definition sun_tick :: "jsnum \<Rightarrow> sun_state \<Rightarrow> sun_state" where
  \<comment> \<open>the first argument is what \<open>clock.getElapsedTime()\<close> returns in this frame\<close>
  "sun_tick elapsedTime s =
     (let s1 = s\<lparr>sun_steps := sun_steps s @ [ReadElapsedTime]\<rparr>;
          s2 = s1\<lparr>sun_uTime := elapsedTime, sun_steps := sun_steps s1 @ [UpdateUniform 0]\<rparr>;
          s3 = s2\<lparr>sun_steps := sun_steps s2 @ [ControlsUpdate]\<rparr>;
          s4 = s3\<lparr>sun_steps := sun_steps s3 @ [Render]\<rparr>
      in s4\<lparr>sun_steps := sun_steps s4 @ [RequestAnimationFrame]\<rparr>)"

definition precedes :: "step \<Rightarrow> step \<Rightarrow> step list \<Rightarrow> bool" where
  \<comment> \<open>\<open>b\<close> occurs strictly after the first occurrence of \<open>a\<close>\<close>
  "precedes a b xs = (b \<in> set (drop 1 (dropWhile (\<lambda>x. x \<noteq> a) xs)))"


section \<open>Resize handlers\<close>









section \<open>Shaders, read as formulas\<close>

text \<open>
  The claims about which expression a vertex shader evaluates, and about that expression
  as a function of the time, read the shader source as the formula over the real numbers
  that it writes down. Vectors are tuples and a \<open>mat4\<close> is indexed by row and column.
  The values that the hardware computes from these formulas, with every operation
  rounded, are the subject of the next section.
\<close>

type_synonym vec2 = "real \<times> real"
type_synonym vec3 = "real \<times> real \<times> real"
type_synonym vec4 = "real \<times> real \<times> real \<times> real"
type_synonym mat4 = "nat \<Rightarrow> nat \<Rightarrow> real"

fun vec3_add :: "vec3 \<Rightarrow> vec3 \<Rightarrow> vec3" where
  "vec3_add (a, b, c) (d, e, f) = (a + d, b + e, c + f)"

fun vec3_scale :: "vec3 \<Rightarrow> real \<Rightarrow> vec3" where
  "vec3_scale (a, b, c) k = (a * k, b * k, c * k)"

fun vec4_of :: "vec3 \<Rightarrow> real \<Rightarrow> vec4" where
  "vec4_of (a, b, c) w = (a, b, c, w)"

definition mat4_mul :: "mat4 \<Rightarrow> mat4 \<Rightarrow> mat4" where
  "mat4_mul A B = (\<lambda>i j. A i 0 * B 0 j + A i 1 * B 1 j + A i 2 * B 2 j + A i 3 * B 3 j)"

fun mat4_mul_vec4 :: "mat4 \<Rightarrow> vec4 \<Rightarrow> vec4" where
  "mat4_mul_vec4 A (x, y, z, w) =
     (A 0 0 * x + A 0 1 * y + A 0 2 * z + A 0 3 * w,
      A 1 0 * x + A 1 1 * y + A 1 2 * z + A 1 3 * w,
      A 2 0 * x + A 2 1 * y + A 2 2 * z + A 2 3 * w,
      A 3 0 * x + A 3 1 * y + A 3 2 * z + A 3 3 * w)"

record vertex_out =
  gl_Position :: vec4
  vUv :: vec2

subsection \<open>Sun\<close>

record sun_uniforms =
  uTime :: real
  uWaveSpeed :: real
  uSmallWaveFrequency :: real
  uSmallWaveSpeed :: real
  uWaveHeight :: real
  uColorMultiplier :: real
  uSurfaceColor :: vec3
  uDepthColor :: vec3

definition sun_initial_uniforms :: sun_uniforms where
  "sun_initial_uniforms =
     \<lparr>uTime = 0, uWaveSpeed = 1, uSmallWaveFrequency = 10, uSmallWaveSpeed = 2,
      uWaveHeight = 15 / 100, uColorMultiplier = 1,
      uSurfaceColor = (1, 1 / 2, 0), uDepthColor = (1, 0, 0)\<rparr>"

definition sun_wave :: "sun_uniforms \<Rightarrow> vec3 \<Rightarrow> real" where
  "sun_wave u position = sin (fst position * 10 + uTime u * uWaveSpeed u) * (5 / 100)"

definition sun_smallWave :: "sun_uniforms \<Rightarrow> vec3 \<Rightarrow> real" where
  "sun_smallWave u position =
     sin (fst (snd position) * uSmallWaveFrequency u + uTime u * uSmallWaveSpeed u) * (3 / 100)"

definition sun_displacement :: "sun_uniforms \<Rightarrow> vec3 \<Rightarrow> real" where
  "sun_displacement u position =
     (let displacement = sun_wave u position + sun_smallWave u position
      in displacement * uWaveHeight u)"

definition sun_newPosition :: "sun_uniforms \<Rightarrow> vec3 \<Rightarrow> vec3 \<Rightarrow> vec3" where
  "sun_newPosition u position normal =
     vec3_add position (vec3_scale normal (sun_displacement u position))"

definition sun_vertexShader ::
  "mat4 \<Rightarrow> mat4 \<Rightarrow> sun_uniforms \<Rightarrow> vec3 \<Rightarrow> vec3 \<Rightarrow> vec2 \<Rightarrow> vertex_out" where
  "sun_vertexShader projectionMatrix modelViewMatrix u position normal uv =
     \<lparr>gl_Position = mat4_mul_vec4 (mat4_mul projectionMatrix modelViewMatrix)
                       (vec4_of (sun_newPosition u position normal) 1),
      vUv = uv\<rparr>"

definition spec_displacement ::
  "real \<Rightarrow> real \<Rightarrow> real \<Rightarrow> real \<Rightarrow> real \<Rightarrow> real \<Rightarrow> real \<Rightarrow> real" where
  \<comment> \<open>the displacement formula as the specification writes it\<close>
  "spec_displacement waveHeight waveSpeed smallWaveFrequency smallWaveSpeed t x y =
     waveHeight * (sin (x * 10 + t * waveSpeed) * (5 / 100)
                   + sin (y * smallWaveFrequency + t * smallWaveSpeed) * (3 / 100))"

subsection \<open>Pyramid: the vertex shader of the radial gradient face\<close>

definition vertexShader3 :: "mat4 \<Rightarrow> mat4 \<Rightarrow> vec3 \<Rightarrow> vec2 \<Rightarrow> vertex_out" where
  "vertexShader3 projectionMatrix modelViewMatrix position uv =
     \<lparr>gl_Position = mat4_mul_vec4 (mat4_mul projectionMatrix modelViewMatrix)
                       (vec4_of position 1),
      vUv = uv\<rparr>"


section \<open>Shaders, as computed in binary32\<close>

text \<open>
  A shader computes in \<open>highp float\<close>, taken here as IEEE 754 binary32: 24 significant
  bits, exponents -126 to 127, every operation rounded to the nearest value with ties
  to even, no fused operations, and the built-in functions \<open>sin\<close> and \<open>sqrt\<close>
  correctly rounded. \<open>round32\<close> is the rounding with the exponent unbounded above and
  \<open>fl32\<close> adds the overflow to an infinity. Shader values are finite numbers, infinities
  or NaN, like the script's numbers, and the operations follow IEEE 754 on them; the
  sign of a zero is not tracked. The literals \<open>10.0\<close>, \<open>2.0\<close>, \<open>1.0\<close> and \<open>0.5\<close> are
  binary32 values; \<open>0.05\<close> and \<open>0.03\<close> are rounded.
\<close>

definition round32 :: "real \<Rightarrow> real" where
  "round32 q =
     (let a = \<bar>q\<bar>;
          e = max (floor_log2 a) (- 126);
          u = pow2 (e - 23);
          r = of_int (round_half_even (a / u)) * u
      in if q = 0 then 0 else if 0 < q then r else - r)"

definition fl32 :: "real \<Rightarrow> jsnum" where
  "fl32 q =
     (let r = round32 q
      in if pow2 128 \<le> r then PosInfinity
         else if r \<le> - pow2 128 then NegInfinity
         else Num r)"

fun gl_add :: "jsnum \<Rightarrow> jsnum \<Rightarrow> jsnum" where
  "gl_add (Num x) (Num y) = fl32 (x + y)"
| "gl_add NaN _ = NaN"
| "gl_add _ NaN = NaN"
| "gl_add PosInfinity NegInfinity = NaN"
| "gl_add NegInfinity PosInfinity = NaN"
| "gl_add PosInfinity _ = PosInfinity"
| "gl_add NegInfinity _ = NegInfinity"
| "gl_add _ PosInfinity = PosInfinity"
| "gl_add _ NegInfinity = NegInfinity"

fun gl_sub :: "jsnum \<Rightarrow> jsnum \<Rightarrow> jsnum" where
  "gl_sub (Num x) (Num y) = fl32 (x - y)"
| "gl_sub NaN _ = NaN"
| "gl_sub _ NaN = NaN"
| "gl_sub PosInfinity PosInfinity = NaN"
| "gl_sub NegInfinity NegInfinity = NaN"
| "gl_sub PosInfinity _ = PosInfinity"
| "gl_sub NegInfinity _ = NegInfinity"
| "gl_sub _ PosInfinity = NegInfinity"
| "gl_sub _ NegInfinity = PosInfinity"

fun gl_mul :: "jsnum \<Rightarrow> jsnum \<Rightarrow> jsnum" where
  "gl_mul (Num x) (Num y) = fl32 (x * y)"
| "gl_mul NaN _ = NaN"
| "gl_mul _ NaN = NaN"
| "gl_mul PosInfinity (Num y) =
     (if y = 0 then NaN else if 0 < y then PosInfinity else NegInfinity)"
| "gl_mul NegInfinity (Num y) =
     (if y = 0 then NaN else if 0 < y then NegInfinity else PosInfinity)"
| "gl_mul (Num x) PosInfinity =
     (if x = 0 then NaN else if 0 < x then PosInfinity else NegInfinity)"
| "gl_mul (Num x) NegInfinity =
     (if x = 0 then NaN else if 0 < x then NegInfinity else PosInfinity)"
| "gl_mul PosInfinity PosInfinity = PosInfinity"
| "gl_mul NegInfinity NegInfinity = PosInfinity"
| "gl_mul PosInfinity NegInfinity = NegInfinity"
| "gl_mul NegInfinity PosInfinity = NegInfinity"

fun gl_div :: "jsnum \<Rightarrow> jsnum \<Rightarrow> jsnum" where
  "gl_div (Num x) (Num y) =
     (if y = 0 then (if x = 0 then NaN else if 0 < x then PosInfinity else NegInfinity)
      else fl32 (x / y))"
| "gl_div NaN _ = NaN"
| "gl_div _ NaN = NaN"
| "gl_div (Num x) _ = Num 0"
| "gl_div PosInfinity (Num y) = (if 0 \<le> y then PosInfinity else NegInfinity)"
| "gl_div NegInfinity (Num y) = (if 0 \<le> y then NegInfinity else PosInfinity)"
| "gl_div _ _ = NaN"

fun gl_floor :: "jsnum \<Rightarrow> jsnum" where
  "gl_floor (Num x) = Num (of_int \<lfloor>x\<rfloor>)"
| "gl_floor a = a"

fun gl_sqrt :: "jsnum \<Rightarrow> jsnum" where
  "gl_sqrt (Num x) = (if x < 0 then NaN else fl32 (sqrt x))"
| "gl_sqrt PosInfinity = PosInfinity"
| "gl_sqrt _ = NaN"

fun gl_sin :: "jsnum \<Rightarrow> jsnum" where
  "gl_sin (Num x) = fl32 (sin x)"
| "gl_sin _ = NaN"

definition gl_mod :: "jsnum \<Rightarrow> jsnum \<Rightarrow> jsnum" where
  "gl_mod x y = gl_sub x (gl_mul y (gl_floor (gl_div x y)))"

type_synonym fvec2 = "jsnum \<times> jsnum"
type_synonym fvec3 = "jsnum \<times> jsnum \<times> jsnum"
type_synonym fvec4 = "jsnum \<times> jsnum \<times> jsnum \<times> jsnum"

fun gl_length :: "fvec2 \<Rightarrow> jsnum" where
  "gl_length (a, b) = gl_sqrt (gl_add (gl_mul a a) (gl_mul b b))"

definition gl_mix1 :: "jsnum \<Rightarrow> jsnum \<Rightarrow> jsnum \<Rightarrow> jsnum" where
  "gl_mix1 p q a = gl_add (gl_mul p (gl_sub (Num 1) a)) (gl_mul q a)"

fun gl_mix :: "fvec3 \<Rightarrow> fvec3 \<Rightarrow> jsnum \<Rightarrow> fvec3" where
  "gl_mix (p1, p2, p3) (q1, q2, q3) a = (gl_mix1 p1 q1 a, gl_mix1 p2 q2 a, gl_mix1 p3 q3 a)"

fun fvec4_of :: "fvec3 \<Rightarrow> jsnum \<Rightarrow> fvec4" where
  "fvec4_of (a, b, c) w = (a, b, c, w)"

definition pyramid_checker :: "fvec2 \<Rightarrow> jsnum" where
  \<comment> \<open>the local \<open>checker\<close> of the second fragment shader\<close>
  "pyramid_checker uv =
     gl_mod (gl_add (gl_floor (gl_mul (fst uv) (Num 10))) (gl_floor (gl_mul (snd uv) (Num 10))))
       (Num 2)"

definition fragmentShader2 :: "fvec2 \<Rightarrow> fvec4" where
  "fragmentShader2 uv =
     (let checker = pyramid_checker uv;
          color = gl_mix (Num 1, Num 1, Num 1) (Num 0, Num 0, Num 0) checker
      in fvec4_of color (Num 1))"

definition fragmentShader3 :: "fvec2 \<Rightarrow> fvec4" where
  "fragmentShader3 uv =
     (let dist = gl_length (gl_sub (fst uv) (Num (1 / 2)), gl_sub (snd uv) (Num (1 / 2)));
          color = (gl_sub (Num 1) dist, dist, Num 0)
      in fvec4_of color (Num 1))"

subsection \<open>Sun: the displacement as computed\<close>

record sun_uniforms32 =
  uTime32 :: jsnum
  uWaveSpeed32 :: jsnum
  uSmallWaveFrequency32 :: jsnum
  uSmallWaveSpeed32 :: jsnum
  uWaveHeight32 :: jsnum

definition sun_wave32 :: "sun_uniforms32 \<Rightarrow> fvec3 \<Rightarrow> jsnum" where
  "sun_wave32 u position =
     gl_mul (gl_sin (gl_add (gl_mul (fst position) (Num 10))
                            (gl_mul (uTime32 u) (uWaveSpeed32 u))))
            (fl32 (5 / 100))"

definition sun_smallWave32 :: "sun_uniforms32 \<Rightarrow> fvec3 \<Rightarrow> jsnum" where
  "sun_smallWave32 u position =
     gl_mul (gl_sin (gl_add (gl_mul (fst (snd position)) (uSmallWaveFrequency32 u))
                            (gl_mul (uTime32 u) (uSmallWaveSpeed32 u))))
            (fl32 (3 / 100))"

definition sun_displacement32 :: "sun_uniforms32 \<Rightarrow> fvec3 \<Rightarrow> jsnum" where
  "sun_displacement32 u position =
     (let displacement = gl_add (sun_wave32 u position) (sun_smallWave32 u position)
      in gl_mul displacement (uWaveHeight32 u))"

fun fvec3_add :: "fvec3 \<Rightarrow> fvec3 \<Rightarrow> fvec3" where
  "fvec3_add (a, b, c) (d, e, f) = (gl_add a d, gl_add b e, gl_add c f)"

fun fvec3_scale :: "fvec3 \<Rightarrow> jsnum \<Rightarrow> fvec3" where
  "fvec3_scale (a, b, c) k = (gl_mul a k, gl_mul b k, gl_mul c k)"

definition sun_newPosition32 :: "sun_uniforms32 \<Rightarrow> fvec3 \<Rightarrow> fvec3 \<Rightarrow> fvec3" where
  "sun_newPosition32 u position normal =
     fvec3_add position (fvec3_scale normal (sun_displacement32 u position))"


section \<open>Evaluating binary64 rounding\<close>

lemma bitlength_literal:
  "bitlength 0 = 0"
  "bitlength 1 = 1"
  "bitlength (numeral k) = 1 + bitlength (numeral k div 2)"
  "bitlength (- numeral k) = 0"
  by (simp_all add: bitlength.simps [of 0] bitlength.simps [of 1]
      bitlength.simps [of "numeral k"] bitlength.simps [of "- numeral k"])

lemmas fl_eval =
  fl_def floor_log2_def round_half_even_def pow2_def bitlength_literal Let_def

lemma fl_one_hundredth: "fl (1 / 100) = Num (5764607523034235 / 576460752303423488)"
  by (simp add: fl_eval)


section \<open>Binary64 rounding: exponent, nearest value, representability\<close>

text \<open>
  The rounding function is what the arithmetic of the scripts' numbers rests on, so its
  parts are checked against their meaning: \<open>floor_log2\<close> is the binary exponent,
  \<open>round_half_even\<close> is within one half of its argument, and a finite result of
  \<open>fl\<close> is an integer of at most 53 bits times the unit of its binade, at most half a
  unit away from the exact value.
\<close>

lemma pow2_powi: "pow2 e = 2 powi e"
  by (simp add: pow2_def power_int_def inverse_eq_divide power_one_over)

lemma pow2_pos: "0 < pow2 e"
  by (simp add: pow2_powi)

lemma pow2_Suc: "pow2 (e + 1) = 2 * pow2 e"
  by (simp add: pow2_powi power_int_add)

lemma pow2_pred: "pow2 (e - 1) = pow2 e / 2"
  using pow2_Suc [of "e - 1"] by simp

lemma pow2_nonneg_exp: "0 \<le> e \<Longrightarrow> pow2 e = 2 ^ nat e"
  by (simp add: pow2_def)

lemma bitlength_pos: "0 < n \<Longrightarrow> bitlength n = 1 + bitlength (n div 2)"
  by (subst bitlength.simps) simp

lemma bitlength_bounds:
  "0 < n \<Longrightarrow> 0 < bitlength n \<and> 2 ^ nat (bitlength n - 1) \<le> n \<and> n < 2 ^ nat (bitlength n)"
proof (induction n rule: bitlength.induct)
  case (1 n)
  show ?case
  proof (cases "n = 1")
    case True
    then show ?thesis by (simp add: bitlength_literal)
  next
    case False
    with "1.prems" have m: "0 < n div 2" by simp
    define b where "b = bitlength (n div 2)"
    from "1.IH" m "1.prems" have ih: "0 < b" "2 ^ nat (b - 1) \<le> n div 2" "n div 2 < 2 ^ nat b"
      by (simp_all add: b_def)
    have bl: "bitlength n = 1 + b"
      using "1.prems" by (simp add: bitlength_pos b_def)
    have p: "(2::int) ^ nat b = 2 * 2 ^ nat (b - 1)"
    proof -
      have "nat b = Suc (nat (b - 1))" using ih(1) by simp
      then show ?thesis by simp
    qed
    have lo: "2 ^ nat b \<le> n" using ih(2) p by linarith
    have "n < 2 * (n div 2 + 1)" by presburger
    also have "\<dots> \<le> 2 * 2 ^ nat b" using ih(3) by simp
    finally have hi: "n < 2 ^ nat (1 + b)" using ih(1) by (simp add: nat_add_distrib)
    show ?thesis using bl lo hi ih(1) by simp
  qed
qed

lemma round_half_even_nearest: "\<bar>real_of_int (round_half_even m) - m\<bar> \<le> 1 / 2"
  unfolding round_half_even_def Let_def
  by (auto simp: abs_if) linarith+


lemma floor_log2_correct:
  assumes "0 < q"
  shows "pow2 (floor_log2 q) \<le> q \<and> q < pow2 (floor_log2 q + 1)"
proof (cases "1 \<le> q")
  case True
  then have f: "0 < \<lfloor>q\<rfloor>" by simp
  define b where "b = bitlength \<lfloor>q\<rfloor>"
  from bitlength_bounds [OF f]
  have bb: "0 < b" "2 ^ nat (b - 1) \<le> \<lfloor>q\<rfloor>" "\<lfloor>q\<rfloor> < 2 ^ nat b"
    by (simp_all add: b_def)
  have e: "floor_log2 q = b - 1" using True by (simp add: floor_log2_def b_def)
  have "real_of_int (2 ^ nat (b - 1)) \<le> q"
    using bb(2) by (simp only: le_floor_iff)
  then have lo: "pow2 (b - 1) \<le> q"
    using bb(1) by (simp add: pow2_nonneg_exp)
  have "q < real_of_int (2 ^ nat b)"
    using bb(3) by (simp only: floor_less_iff)
  then have hi: "q < pow2 b"
    using bb(1) by (simp add: pow2_nonneg_exp)
  show ?thesis using e lo hi by simp
next
  case False
  with assms have q1: "1 < 1 / q" by simp
  define m where "m = \<lceil>1 / q\<rceil>"
  have m2: "0 < m - 1" using q1 by (simp add: m_def less_ceiling_iff)
  define k where "k = bitlength (m - 1)"
  from bitlength_bounds [OF m2]
  have kk: "0 < k" "2 ^ nat (k - 1) \<le> m - 1" "m - 1 < 2 ^ nat k"
    by (simp_all add: k_def)
  have e: "floor_log2 q = - k" using False by (simp add: floor_log2_def k_def m_def)
  have "\<lceil>1 / q\<rceil> \<le> 2 ^ nat k" using kk(3) by (simp add: m_def)
  then have "1 / q \<le> real_of_int (2 ^ nat k)" by (simp only: ceiling_le_iff)
  then have "1 / q \<le> 2 ^ nat k" by simp
  then have lo: "pow2 (- k) \<le> q"
    using assms kk(1) by (simp add: pow2_def field_simps)
  have "2 ^ nat (k - 1) < \<lceil>1 / q\<rceil>" using kk(2) by (simp add: m_def)
  then have "real_of_int (2 ^ nat (k - 1)) < 1 / q" by (simp only: less_ceiling_iff)
  then have "2 ^ nat (k - 1) < 1 / q" by simp
  then have "q < 1 / 2 ^ nat (k - 1)"
    using assms by (simp add: field_simps)
  moreover have "pow2 (- k + 1) = 1 / 2 ^ nat (k - 1)"
    using kk(1) by (cases "k = 1") (simp_all add: pow2_def)
  ultimately have hi: "q < pow2 (- k + 1)"
    by (simp only:)
  show ?thesis using e lo hi by simp
qed


lemma pow2_mono: "a \<le> b \<Longrightarrow> pow2 a \<le> pow2 b"
  by (simp add: pow2_powi power_int_increasing)

lemma pow2_add: "pow2 (a + b) = pow2 a * pow2 b"
  by (simp add: pow2_powi power_int_add)

lemma round_half_even_range:
  assumes "0 \<le> m" and "m < of_int k"
  shows "0 \<le> round_half_even m \<and> round_half_even m \<le> k"
proof -
  have "0 \<le> \<lfloor>m\<rfloor>" using assms(1) by simp
  moreover have "\<lfloor>m\<rfloor> < k" using assms(2) by (simp only: floor_less_iff)
  ultimately show ?thesis by (simp add: round_half_even_def Let_def)
qed

lemma fl_representable:
  assumes "fl q = Num r"
  shows "\<exists>n. \<bar>n\<bar> \<le> 2 ^ 53 \<and> r = of_int n * pow2 (max (floor_log2 \<bar>q\<bar>) (- 1022) - 52)"
proof (cases "q = 0")
  case True
  with assms have "r = 0" by (simp add: fl_def)
  then show ?thesis by (intro exI [of _ 0]) simp
next
  case False
  define e where "e = max (floor_log2 \<bar>q\<bar>) (- 1022)"
  define u where "u = pow2 (e - 52)"
  define n where "n = round_half_even (\<bar>q\<bar> / u)"
  have u: "0 < u" by (simp add: u_def pow2_pos)
  have "fl q = (if 1023 < (if n = 9007199254740992 then e + 1 else e)
                then (if 0 < q then PosInfinity else NegInfinity)
                else Num (if 0 < q then of_int n * u else - (of_int n * u)))"
    unfolding fl_def Let_def n_def u_def e_def using False by (simp only: if_False)
  with assms have r: "r = (if 0 < q then of_int n * u else - (of_int n * u))"
    by (simp split: if_splits)
  have "\<bar>q\<bar> < pow2 (floor_log2 \<bar>q\<bar> + 1)"
    using floor_log2_correct [of "\<bar>q\<bar>"] False by simp
  also have "\<dots> \<le> pow2 (e + 1)"
    by (rule pow2_mono) (simp add: e_def)
  also have "\<dots> = u * 2 ^ 53"
  proof -
    have "pow2 53 = 2 ^ 53" by (simp add: pow2_def)
    moreover have "e - 52 + 53 = e + 1" by simp
    ultimately show ?thesis using pow2_add [of "e - 52" 53] by (simp only: u_def)
  qed
  finally have "\<bar>q\<bar> / u < of_int (2 ^ 53)"
    using u by (simp add: field_simps)
  moreover have "0 \<le> \<bar>q\<bar> / u" using u by simp
  ultimately have n: "0 \<le> n" "n \<le> 2 ^ 53"
    unfolding n_def using round_half_even_range by blast+
  show ?thesis
  proof (cases "0 < q")
    case True
    with r n show ?thesis unfolding e_def [symmetric] u_def [symmetric]
      by (intro exI [of _ n]) simp
  next
    case False
    with r n show ?thesis unfolding e_def [symmetric] u_def [symmetric]
      by (intro exI [of _ "- n"]) simp
  qed
qed

lemma pow2_strict_mono: "a < b \<Longrightarrow> pow2 a < pow2 b"
  by (simp add: pow2_powi power_int_strict_increasing)

lemma floor_log2_less: "0 < q \<Longrightarrow> q < pow2 k \<Longrightarrow> floor_log2 q < k"
proof (rule ccontr)
  assume q: "0 < q" "q < pow2 k" and "\<not> floor_log2 q < k"
  then have "pow2 k \<le> pow2 (floor_log2 q)" by (intro pow2_mono) simp
  with floor_log2_correct [OF q(1)] q(2) show False by linarith
qed

lemma floor_log2_ge: "0 < q \<Longrightarrow> pow2 k \<le> q \<Longrightarrow> k \<le> floor_log2 q"
proof (rule ccontr)
  assume q: "0 < q" "pow2 k \<le> q" and "\<not> k \<le> floor_log2 q"
  then have "pow2 (floor_log2 q + 1) \<le> pow2 k" by (intro pow2_mono) simp
  with floor_log2_correct [OF q(1)] q(2) show False by linarith
qed

lemma floor_log2_unique:
  "pow2 e \<le> q \<Longrightarrow> q < pow2 (e + 1) \<Longrightarrow> floor_log2 q = e"
proof -
  assume a: "pow2 e \<le> q" "q < pow2 (e + 1)"
  have q: "0 < q" using a(1) pow2_pos [of e] by linarith
  from floor_log2_less [OF q a(2)] floor_log2_ge [OF q a(1)] show ?thesis by simp
qed



section \<open>Repeated addition of 0.01\<close>

lemma pyramid_tick_fields:
  "mat0_uTime (pyramid_tick s) = js_add (mat0_uTime s) (fl (1 / 100))"
  "mat3_uTime (pyramid_tick s) = js_add (mat3_uTime s) (fl (1 / 100))"
  "rotation_y (pyramid_tick s) = js_add (rotation_y s) (fl (1 / 100))"
  by (simp_all add: pyramid_tick_def Let_def)

lemma pyramid_ticks_fields:
  "mat0_uTime (pyramid_ticks n s) = ((\<lambda>x. js_add x (fl (1 / 100))) ^^ n) (mat0_uTime s)"
  "mat3_uTime (pyramid_ticks n s) = ((\<lambda>x. js_add x (fl (1 / 100))) ^^ n) (mat3_uTime s)"
  "rotation_y (pyramid_ticks n s) = ((\<lambda>x. js_add x (fl (1 / 100))) ^^ n) (rotation_y s)"
  by (induction n; simp add: pyramid_tick_fields)+

lemma hundred_additions:
  "((\<lambda>x. js_add x (fl (1 / 100))) ^^ 100) (Num 0) = Num (1 + 3 / 2 ^ 52)"
  by (simp add: eval_nat_numeral fl_one_hundredth) (simp add: fl_eval)

text \<open>
  C4 (as amended). After exactly 100 ticks from the initial state, \<open>pyramid.rotation.y\<close>
  and the \<open>uTime\<close> values of \<open>materials[0]\<close> and \<open>materials[3]\<close> all hold the same
  number: the result of one hundred rounded additions of the binary64 value of \<open>0.01\<close>,
  which is \<open>1 + 3 * 2^-52\<close> (printed as 1.0000000000000007).
\<close>

theorem pyramid_after_100_ticks:
  "rotation_y (pyramid_ticks 100 pyramid_init) = Num (1 + 3 / 2 ^ 52)
   \<and> mat0_uTime (pyramid_ticks 100 pyramid_init) = Num (1 + 3 / 2 ^ 52)
   \<and> mat3_uTime (pyramid_ticks 100 pyramid_init) = Num (1 + 3 / 2 ^ 52)"
  by (simp only: pyramid_ticks_fields)
     (simp only: pyramid_init_def pyramid_state.simps hundred_additions)

text \<open>
  C4 as stated fails: after 100 ticks the rotation is not the number 1, and neither are the
  two time uniforms.
\<close>

theorem pyramid_after_100_ticks_not_one:
  "rotation_y (pyramid_ticks 100 pyramid_init) \<noteq> Num 1
   \<and> mat0_uTime (pyramid_ticks 100 pyramid_init) \<noteq> Num 1
   \<and> mat3_uTime (pyramid_ticks 100 pyramid_init) \<noteq> Num 1"
  by (simp only: pyramid_ticks_fields)
     (simp add: pyramid_init_def hundred_additions)

text \<open>
  C9. The two time uniforms of the pyramid start at 0, every tick adds the same rounded
  0.01 to each, and so after any number of ticks they are equal.
\<close>

theorem pyramid_uTime_in_phase:
  "mat0_uTime pyramid_init = Num 0 \<and> mat3_uTime pyramid_init = Num 0
   \<and> mat0_uTime (pyramid_tick s) = js_add (mat0_uTime s) (fl (1 / 100))
   \<and> mat3_uTime (pyramid_tick s) = js_add (mat3_uTime s) (fl (1 / 100))
   \<and> mat0_uTime (pyramid_ticks n pyramid_init) = mat3_uTime (pyramid_ticks n pyramid_init)"
  by (simp add: pyramid_ticks_fields pyramid_tick_fields) (simp add: pyramid_init_def)


section \<open>Order of the steps of a tick\<close>

lemma steps_pyramid_tick:
  "steps (pyramid_tick s) = steps s @
     [UpdateUniform 0, UpdateUniform 3, RotatePyramid, ControlsUpdate, Render,
      RequestAnimationFrame]"
  by (simp add: pyramid_tick_def Let_def)

lemma steps_sun_tick:
  "sun_steps (sun_tick t s) = sun_steps s @
     [ReadElapsedTime, UpdateUniform 0, ControlsUpdate, Render, RequestAnimationFrame]"
  by (simp add: sun_tick_def Let_def)

text \<open>
  C5 (as amended). A pyramid tick adds 0.01 to the time uniform of material 0, then of
  material 3, then to the rotation, then updates the camera controls, renders once and
  re-schedules itself; it reads no elapsed time, and the rotation comes before the
  controls update. A sun tick reads the elapsed time, stores it in its time uniform,
  updates the camera controls, renders once and re-schedules itself; it rotates nothing.
\<close>

theorem tick_step_order:
  "steps (pyramid_tick s) = steps s @
     [UpdateUniform 0, UpdateUniform 3, RotatePyramid, ControlsUpdate, Render,
      RequestAnimationFrame]
   \<and> sun_steps (sun_tick t z) = sun_steps z @
     [ReadElapsedTime, UpdateUniform 0, ControlsUpdate, Render, RequestAnimationFrame]
   \<and> sun_uTime (sun_tick t z) = t
   \<and> precedes RotatePyramid ControlsUpdate
         (drop (length (steps s)) (steps (pyramid_tick s)))"
  by (simp add: steps_pyramid_tick steps_sun_tick precedes_def)
     (simp add: sun_tick_def Let_def)

text \<open>
  C5 as stated fails: in the first pyramid tick the controls update does not come before
  the rotation increment.
\<close>

theorem pyramid_rotates_before_damping:
  "\<not> precedes ControlsUpdate RotatePyramid (steps (pyramid_tick pyramid_init))"
  by (simp add: steps_pyramid_tick precedes_def pyramid_init_def)


section \<open>Resize\<close>





lemma js_div_examples:
  "js_div (Num 800) (Num 400) = Num 2"
  "js_div (Num 1920) (Num 1080) = Num (8006399337547548 / 2 ^ 52)"
  "js_div (Num 800) (Num 0) = PosInfinity"
  "js_min (Num 3) (Num 2) = Num 2"
  "js_min (Num (3 / 2)) (Num 2) = Num (3 / 2)"
  by (simp_all add: fl_eval)






section \<open>Binary32 rounding: order, nearest value, finite results\<close>

lemmas fl32_eval =
  fl32_def round32_def floor_log2_def round_half_even_def pow2_def bitlength_literal Let_def

lemma fl32_examples:
  "fl32 (7 / 10) = Num (11744051 / 16777216)"
  "fl32 (11744051 / 16777216 * 10) = Num 7"
  "fl32 (2 ^ 128 - 2 ^ 103) = PosInfinity"
  "fl32 (2 ^ 128 - 2 ^ 103 - 1) = Num (2 ^ 128 - 2 ^ 104)"
  by (simp_all add: fl32_eval)

lemma round_half_even_of_int: "round_half_even (of_int k) = k"
  by (simp add: round_half_even_def)

lemma round_half_even_mono: "m \<le> m' \<Longrightarrow> round_half_even m \<le> round_half_even m'"
proof -
  assume le: "m \<le> m'"
  have fm: "\<lfloor>m\<rfloor> \<le> \<lfloor>m'\<rfloor>" using le by (rule floor_mono)
  show ?thesis
  proof (cases "\<lfloor>m\<rfloor> = \<lfloor>m'\<rfloor>")
    case True
    then show ?thesis using le
      by (auto simp add: round_half_even_def Let_def)
  next
    case False
    with fm have "\<lfloor>m\<rfloor> + 1 \<le> \<lfloor>m'\<rfloor>" by simp
    moreover have "round_half_even m \<le> \<lfloor>m\<rfloor> + 1"
      by (simp add: round_half_even_def Let_def)
    moreover have "\<lfloor>m'\<rfloor> \<le> round_half_even m'"
      by (simp add: round_half_even_def Let_def)
    ultimately show ?thesis by linarith
  qed
qed

lemma round32_minus: "round32 (- q) = - round32 q"
  by (simp add: round32_def Let_def)

lemma round32_zero: "round32 0 = 0"
  by (simp add: round32_def Let_def)

lemma round32_pos_form:
  assumes "0 < q"
  shows "round32 q = of_int (round_half_even (q / pow2 (max (floor_log2 q) (- 126) - 23)))
                       * pow2 (max (floor_log2 q) (- 126) - 23)"
proof -
  have aq: "\<bar>q\<bar> = q" using assms by simp
  show ?thesis unfolding round32_def Let_def aq using assms by simp
qed

lemma round32_pos_bounds:
  assumes "0 < q"
  defines "e \<equiv> max (floor_log2 q) (- 126)"
  shows "round32 q \<le> pow2 (e + 1)"
    and "- 126 \<le> floor_log2 q \<Longrightarrow> pow2 e \<le> round32 q"
    and "0 \<le> round32 q"
proof -
  define u where "u = pow2 (e - 23)"
  have u: "0 < u" by (simp add: u_def pow2_pos)
  have r: "round32 q = of_int (round_half_even (q / u)) * u"
    using round32_pos_form [OF assms(1)] by (simp add: u_def e_def)
  have p24: "pow2 (e + 1) = of_int (2 ^ 24) * u"
  proof -
    have "pow2 24 = 2 ^ 24" by (simp add: pow2_def)
    moreover have "e - 23 + 24 = e + 1" by simp
    ultimately show ?thesis using pow2_add [of "e - 23" 24]
      by (simp add: u_def mult.commute add.commute)
  qed
  have p23: "pow2 e = of_int (2 ^ 23) * u"
  proof -
    have "pow2 23 = 2 ^ 23" by (simp add: pow2_def)
    moreover have "e - 23 + 23 = e" by simp
    ultimately show ?thesis using pow2_add [of "e - 23" 23] by (simp add: u_def mult.commute)
  qed
  have "q < pow2 (floor_log2 q + 1)" using floor_log2_correct [OF assms(1)] by simp
  also have "\<dots> \<le> pow2 (e + 1)" by (rule pow2_mono) (simp add: e_def)
  finally have "q / u \<le> of_int (2 ^ 24)" using u p24 by (simp add: field_simps)
  then have "round_half_even (q / u) \<le> 2 ^ 24"
    using round_half_even_mono [of "q / u" "of_int (2 ^ 24)"]
    by (simp only: round_half_even_of_int)
  then have "real_of_int (round_half_even (q / u)) \<le> of_int (2 ^ 24)"
    by (simp only: of_int_le_iff)
  then show "round32 q \<le> pow2 (e + 1)"
    unfolding r p24 using u by (intro mult_right_mono) auto
  have "0 \<le> q / u" using u assms(1) by simp
  then have "round_half_even (of_int 0) \<le> round_half_even (q / u)"
    by (intro round_half_even_mono) simp
  then have "0 \<le> round_half_even (q / u)" by (simp only: round_half_even_of_int)
  then show "0 \<le> round32 q" unfolding r using u by simp
  show "pow2 e \<le> round32 q" if "- 126 \<le> floor_log2 q"
  proof -
    have "e = floor_log2 q" using that by (simp add: e_def)
    then have "pow2 e \<le> q" using floor_log2_correct [OF assms(1)] by simp
    then have "of_int (2 ^ 23) \<le> q / u" using u p23 by (simp add: field_simps)
    then have "2 ^ 23 \<le> round_half_even (q / u)"
      using round_half_even_mono [of "of_int (2 ^ 23)" "q / u"]
      by (simp only: round_half_even_of_int)
    then have "real_of_int (2 ^ 23) \<le> of_int (round_half_even (q / u))"
      by (simp only: of_int_le_iff)
    then show ?thesis unfolding r p23 using u by (intro mult_right_mono) auto
  qed
qed

lemma round32_pos_mono:
  assumes "0 < x" and "x \<le> y"
  shows "round32 x \<le> round32 y"
proof -
  have y: "0 < y" using assms by linarith
  define ex where "ex = max (floor_log2 x) (- 126)"
  define ey where "ey = max (floor_log2 y) (- 126)"
  have "pow2 (floor_log2 x) \<le> y" using floor_log2_correct [OF assms(1)] assms(2) by linarith
  then have fxy: "floor_log2 x \<le> floor_log2 y" by (rule floor_log2_ge [OF y])
  then have exy: "ex \<le> ey" by (simp add: ex_def ey_def)
  show ?thesis
  proof (cases "ex = ey")
    case True
    define u where "u = pow2 (ex - 23)"
    have u: "0 < u" by (simp add: u_def pow2_pos)
    have "x / u \<le> y / u" using assms(2) u by (simp add: divide_right_mono)
    then have "round_half_even (x / u) \<le> round_half_even (y / u)"
      by (rule round_half_even_mono)
    then have "real_of_int (round_half_even (x / u)) * u \<le> of_int (round_half_even (y / u)) * u"
      using u by (intro mult_right_mono) auto
    then show ?thesis
      using round32_pos_form [OF assms(1)] round32_pos_form [OF y] True
      by (simp add: u_def ex_def ey_def)
  next
    case False
    with exy have lt: "ex + 1 \<le> ey" by simp
    then have "- 126 \<le> floor_log2 y" unfolding ex_def ey_def by linarith
    then have "pow2 ey \<le> round32 y"
      using round32_pos_bounds(2) [OF y] by (simp add: ey_def)
    moreover have "round32 x \<le> pow2 (ex + 1)"
      using round32_pos_bounds(1) [OF assms(1)] by (simp add: ex_def)
    moreover have "pow2 (ex + 1) \<le> pow2 ey" using lt by (rule pow2_mono)
    ultimately show ?thesis by linarith
  qed
qed

lemma round32_mono: "x \<le> y \<Longrightarrow> round32 x \<le> round32 y"
proof -
  assume le: "x \<le> y"
  consider "0 < x" | "x = 0" | "x < 0" "0 \<le> y" | "y < 0" by linarith
  then show ?thesis
  proof cases
    case 1
    then show ?thesis using le by (rule round32_pos_mono)
  next
    case 2
    show ?thesis
    proof (cases "y = 0")
      case True
      with 2 show ?thesis by simp
    next
      case False
      with 2 le have "0 < y" by simp
      then show ?thesis using round32_pos_bounds(3) [of y] 2 by (simp add: round32_zero)
    qed
  next
    case 3
    have "0 \<le> round32 (- x)" using 3(1) round32_pos_bounds(3) [of "- x"] by simp
    then have "round32 x \<le> 0" by (simp add: round32_minus)
    moreover have "0 \<le> round32 y"
    proof (cases "y = 0")
      case True
      then show ?thesis by (simp add: round32_zero)
    next
      case False
      with 3(2) have "0 < y" by simp
      then show ?thesis by (rule round32_pos_bounds(3))
    qed
    ultimately show ?thesis by linarith
  next
    case 4
    then have "0 < - y" "- y \<le> - x" using le by simp_all
    then have "round32 (- y) \<le> round32 (- x)" by (rule round32_pos_mono)
    then show ?thesis by (simp add: round32_minus)
  qed
qed

lemma round32_half_ulp:
  "\<bar>round32 q - q\<bar> \<le> pow2 (max (floor_log2 \<bar>q\<bar>) (- 126) - 24)"
proof (cases "q = 0")
  case True
  then show ?thesis using pow2_pos [of "max (floor_log2 0) (- 126) - 24"]
    by (simp add: round32_zero)
next
  case False
  define e where "e = max (floor_log2 \<bar>q\<bar>) (- 126)"
  define u where "u = pow2 (e - 23)"
  define n where "n = round_half_even (\<bar>q\<bar> / u)"
  have u: "0 < u" by (simp add: u_def pow2_pos)
  have r: "round32 q = (if 0 < q then of_int n * u else - (of_int n * u))"
    unfolding round32_def Let_def n_def u_def e_def using False by simp
  have "\<bar>real_of_int n - \<bar>q\<bar> / u\<bar> \<le> 1 / 2"
    unfolding n_def by (rule round_half_even_nearest)
  then have "\<bar>real_of_int n - \<bar>q\<bar> / u\<bar> * \<bar>u\<bar> \<le> 1 / 2 * \<bar>u\<bar>"
    by (intro mult_right_mono) auto
  then have "\<bar>(real_of_int n - \<bar>q\<bar> / u) * u\<bar> \<le> u / 2"
    using u by (simp only: abs_mult abs_of_pos)
  moreover have "(real_of_int n - \<bar>q\<bar> / u) * u = real_of_int n * u - \<bar>q\<bar>"
    using u by (simp add: left_diff_distrib)
  ultimately have "\<bar>real_of_int n * u - \<bar>q\<bar>\<bar> \<le> u / 2" by simp
  moreover have "u / 2 = pow2 (e - 24)"
    using pow2_pred [of "e - 23"] by (simp add: u_def)
  ultimately have "\<bar>real_of_int n * u - \<bar>q\<bar>\<bar> \<le> pow2 (e - 24)" by simp
  then show ?thesis unfolding e_def [symmetric] using r False
    by (simp add: abs_if split: if_splits)
qed

lemma round_half_even_unique:
  assumes "of_int N - 1 / 2 < m" and "m < of_int N + 1 / 2"
  shows "round_half_even m = N"
proof (cases "m < of_int N")
  case True
  have "\<lfloor>m\<rfloor> = N - 1"
    using True assms(1) by (intro floor_unique) simp_all
  then show ?thesis using assms(1) by (simp add: round_half_even_def Let_def)
next
  case False
  have "\<lfloor>m\<rfloor> = N"
    using False assms(2) by (intro floor_unique) simp_all
  then show ?thesis using assms(2) by (simp add: round_half_even_def Let_def)
qed

lemma round32_err_lt:
  assumes "\<bar>q\<bar> < pow2 k" and "- 125 \<le> k"
  shows "\<bar>round32 q - q\<bar> \<le> pow2 (k - 25)"
proof (cases "q = 0")
  case True
  then show ?thesis using pow2_pos [of "k - 25"] by (simp add: round32_zero)
next
  case False
  then have "floor_log2 \<bar>q\<bar> < k" using assms(1) by (intro floor_log2_less) simp_all
  then have "max (floor_log2 \<bar>q\<bar>) (- 126) - 24 \<le> k - 25" using assms(2) by simp
  then have "pow2 (max (floor_log2 \<bar>q\<bar>) (- 126) - 24) \<le> pow2 (k - 25)" by (rule pow2_mono)
  with round32_half_ulp [of q] show ?thesis by linarith
qed

lemma fl32_finite: "\<bar>q\<bar> \<le> 2 ^ 100 \<Longrightarrow> fl32 q = Num (round32 q)"
proof -
  assume a: "\<bar>q\<bar> \<le> 2 ^ 100"
  have r: "round32 (2 ^ 100) = 2 ^ 100"
    by (simp add: fl32_eval)
  have p: "pow2 128 = 2 ^ 128"
    by (simp add: pow2_def)
  have "q \<le> 2 ^ 100" using a by linarith
  then have "round32 q \<le> round32 (2 ^ 100)" by (rule round32_mono)
  then have hi: "round32 q \<le> 2 ^ 100" by (simp only: r)
  have "- (2 ^ 100) \<le> q" using a by linarith
  then have "round32 (- (2 ^ 100)) \<le> round32 q" by (rule round32_mono)
  then have lo: "- (2 ^ 100) \<le> round32 q" by (simp only: round32_minus r)
  have "(2::real) ^ 100 < 2 ^ 128" by simp
  then have "round32 q < pow2 128" "- pow2 128 < round32 q"
    using hi lo unfolding p by linarith+
  then show ?thesis unfolding fl32_def Let_def by simp
qed

lemma round32_range:
  assumes "round32 lo = lo" and "round32 hi = hi" and "lo \<le> q" and "q \<le> hi"
  shows "lo \<le> round32 q \<and> round32 q \<le> hi"
  using round32_mono [OF assms(3)] round32_mono [OF assms(4)] assms(1,2) by simp

lemma round32_small_int:
  assumes "0 \<le> k" and "k \<le> 20"
  shows "round32 (of_int k) = of_int k" and "round32 (of_int k / 2) = of_int k / 2"
proof -
  from assms have "k = 0 \<or> k = 1 \<or> k = 2 \<or> k = 3 \<or> k = 4 \<or> k = 5 \<or> k = 6 \<or> k = 7 \<or> k = 8
    \<or> k = 9 \<or> k = 10 \<or> k = 11 \<or> k = 12 \<or> k = 13 \<or> k = 14 \<or> k = 15 \<or> k = 16 \<or> k = 17
    \<or> k = 18 \<or> k = 19 \<or> k = 20" by presburger
  then show "round32 (of_int k) = of_int k" and "round32 (of_int k / 2) = of_int k / 2"
    by (elim disjE; simp add: fl32_eval)+
qed

lemma round32_abs_le:
  assumes "\<bar>q\<bar> \<le> B" and "round32 B = B"
  shows "\<bar>round32 q\<bar> \<le> B"
proof -
  have a: "q \<le> B" and b: "- B \<le> q" using assms(1) by linarith+
  have "round32 q \<le> B" using round32_mono [OF a] by (simp only: assms(2))
  moreover have "- B \<le> round32 q"
    using round32_mono [OF b] by (simp only: round32_minus assms(2))
  ultimately show ?thesis by linarith
qed

lemma round32_abs_mono:
  assumes "\<bar>q\<bar> \<le> B"
  shows "\<bar>round32 q\<bar> \<le> round32 B"
proof -
  have a: "q \<le> B" and b: "- B \<le> q" using assms(1) by linarith+
  have "- round32 B \<le> round32 q"
    using round32_mono [OF b] by (simp only: round32_minus)
  with round32_mono [OF a] show ?thesis by linarith
qed

lemma round32_rel_bound:
  assumes "pow2 (- 126) \<le> B"
  shows "round32 B \<le> B * (1 + 1 / 2 ^ 24)"
proof -
  have B: "0 < B" using assms pow2_pos [of "- 126"] by linarith
  define e where "e = floor_log2 B"
  have e: "- 126 \<le> e" unfolding e_def using B assms by (rule floor_log2_ge)
  have "\<bar>round32 B - B\<bar> \<le> pow2 (max (floor_log2 \<bar>B\<bar>) (- 126) - 24)"
    by (rule round32_half_ulp)
  also have "max (floor_log2 \<bar>B\<bar>) (- 126) - 24 = e - 24" using B e by (simp add: e_def)
  also have "pow2 (e - 24) = pow2 e / 2 ^ 24"
  proof -
    have "pow2 (- 24) = 1 / 2 ^ 24" by (simp add: pow2_def)
    then show ?thesis using pow2_add [of e "- 24"] by simp
  qed
  also have "\<dots> \<le> B / 2 ^ 24"
    using floor_log2_correct [OF B] by (simp add: e_def divide_right_mono)
  finally have "round32 B - B \<le> B / 2 ^ 24" by linarith
  then show ?thesis by (simp add: algebra_simps)
qed


section \<open>The checkerboard face\<close>

lemma small_int_cases:
  "0 \<le> k \<Longrightarrow> k \<le> 20 \<Longrightarrow>
   k = 0 \<or> k = 1 \<or> k = 2 \<or> k = 3 \<or> k = 4 \<or> k = 5 \<or> k = 6 \<or> k = 7 \<or> k = 8
    \<or> k = 9 \<or> k = 10 \<or> k = 11 \<or> k = 12 \<or> k = 13 \<or> k = 14 \<or> k = 15 \<or> k = 16 \<or> k = 17
    \<or> k = 18 \<or> k = 19 \<or> (k::int) = 20"
  by presburger

lemma gl_mod_small:
  assumes "0 \<le> k" and "k \<le> 20"
  shows "gl_mod (Num (of_int k)) (Num 2) = Num (of_int (k mod 2))"
  using small_int_cases [OF assms]
  by (elim disjE; simp add: gl_mod_def fl32_eval)

lemma gl_add_small:
  assumes "0 \<le> k" and "k \<le> 10" and "0 \<le> j" and "j \<le> 10"
  shows "gl_add (Num (of_int k)) (Num (of_int j)) = Num (of_int (k + j))"
proof -
  have "\<bar>real_of_int k + of_int j\<bar> \<le> 2 ^ 100" using assms by simp
  then have "fl32 (of_int k + of_int j) = Num (round32 (of_int (k + j)))"
    using fl32_finite [of "of_int k + of_int j"] by simp
  moreover have "round32 (of_int (k + j)) = of_int (k + j)"
    using assms by (intro round32_small_int(1)) simp_all
  ultimately show ?thesis by simp
qed

lemma cell_index:
  assumes "0 \<le> u" and "u \<le> 1"
  shows "gl_floor (gl_mul (Num u) (Num 10)) = Num (of_int \<lfloor>round32 (u * 10)\<rfloor>)"
    and "0 \<le> \<lfloor>round32 (u * 10)\<rfloor>" and "\<lfloor>round32 (u * 10)\<rfloor> \<le> 10"
proof -
  have r0: "round32 0 = 0" by (rule round32_zero)
  have r10: "round32 10 = 10" by (simp add: fl32_eval)
  have "0 \<le> u * 10" "u * 10 \<le> 10" using assms by simp_all
  from round32_range [OF r0 r10 this]
  have b: "0 \<le> round32 (u * 10)" "round32 (u * 10) \<le> 10" by simp_all
  have "\<bar>u * 10\<bar> \<le> 2 ^ 100" using assms by simp
  then have "fl32 (u * 10) = Num (round32 (u * 10))" by (rule fl32_finite)
  then show "gl_floor (gl_mul (Num u) (Num 10)) = Num (of_int \<lfloor>round32 (u * 10)\<rfloor>)"
    by simp
  show "0 \<le> \<lfloor>round32 (u * 10)\<rfloor>" using b(1) by simp
  show "\<lfloor>round32 (u * 10)\<rfloor> \<le> 10" using b(2) by (simp add: floor_le_iff)
qed

lemma pyramid_checker_parity:
  assumes "0 \<le> u" and "u \<le> 1" and "0 \<le> v" and "v \<le> 1"
  shows "pyramid_checker (Num u, Num v) =
    Num (of_int ((\<lfloor>round32 (u * 10)\<rfloor> + \<lfloor>round32 (v * 10)\<rfloor>) mod 2))"
proof -
  note cu = cell_index [OF assms(1,2)] and cv = cell_index [OF assms(3,4)]
  have s: "0 \<le> \<lfloor>round32 (u * 10)\<rfloor> + \<lfloor>round32 (v * 10)\<rfloor>"
    "\<lfloor>round32 (u * 10)\<rfloor> + \<lfloor>round32 (v * 10)\<rfloor> \<le> 20"
    using cu(2,3) cv(2,3) by linarith+
  show ?thesis
    unfolding pyramid_checker_def fst_conv snd_conv cu(1) cv(1)
      gl_add_small [OF cu(2,3) cv(2,3)]
    by (rule gl_mod_small [OF s])
qed

lemma fragmentShader2_colour:
  assumes "0 \<le> u" and "u \<le> 1" and "0 \<le> v" and "v \<le> 1"
  shows "fragmentShader2 (Num u, Num v) =
     (if even (\<lfloor>round32 (u * 10)\<rfloor> + \<lfloor>round32 (v * 10)\<rfloor>)
      then (Num 1, Num 1, Num 1, Num 1) else (Num 0, Num 0, Num 0, Num 1))"
proof -
  let ?k = "\<lfloor>round32 (u * 10)\<rfloor> + \<lfloor>round32 (v * 10)\<rfloor>"
  have m: "gl_mix1 (Num 1) (Num 0) (Num 0) = Num 1" "gl_mix1 (Num 1) (Num 0) (Num 1) = Num 0"
    by (simp_all add: gl_mix1_def fl32_eval)
  have "?k mod 2 = (if even ?k then 0 else 1)" by presburger
  then show ?thesis
    unfolding fragmentShader2_def Let_def pyramid_checker_parity [OF assms]
    by (simp add: m)
qed

text \<open>
  C2 (as amended). For all texture coordinates in the unit square the checkerboard value
  is well defined: it is the parity of the sum of the two cell indices, the floors of
  the rounded products \<open>10 u\<close> and \<open>10 v\<close>, and so it is 0 or 1 and nothing else. A
  shift of \<open>u\<close> that raises its cell index by one turns the value into the other one.
\<close>

theorem checker_binary_and_flips:
  assumes "0 \<le> u" and "u \<le> 1" and "0 \<le> v" and "v \<le> 1"
    and "0 \<le> u'" and "u' \<le> 1"
  shows "pyramid_checker (Num u, Num v) =
      Num (of_int ((\<lfloor>round32 (u * 10)\<rfloor> + \<lfloor>round32 (v * 10)\<rfloor>) mod 2))
    \<and> (pyramid_checker (Num u, Num v) = Num 0 \<or> pyramid_checker (Num u, Num v) = Num 1)
    \<and> (\<lfloor>round32 (u' * 10)\<rfloor> = \<lfloor>round32 (u * 10)\<rfloor> + 1 \<longrightarrow>
         (pyramid_checker (Num u, Num v) = Num 0 \<longrightarrow> pyramid_checker (Num u', Num v) = Num 1)
       \<and> (pyramid_checker (Num u, Num v) = Num 1 \<longrightarrow> pyramid_checker (Num u', Num v) = Num 0))"
proof -
  let ?k = "\<lfloor>round32 (u * 10)\<rfloor> + \<lfloor>round32 (v * 10)\<rfloor>"
  have p: "pyramid_checker (Num u, Num v) = Num (of_int (?k mod 2))"
    by (rule pyramid_checker_parity [OF assms(1-4)])
  have p': "pyramid_checker (Num u', Num v) =
      Num (of_int ((\<lfloor>round32 (u' * 10)\<rfloor> + \<lfloor>round32 (v * 10)\<rfloor>) mod 2))"
    by (rule pyramid_checker_parity [OF assms(5,6,3,4)])
  have b: "?k mod 2 = 0 \<or> ?k mod 2 = 1" by presburger
  have f: "(?k + 1) mod 2 = 1 - ?k mod 2" by presburger
  have f': "\<lfloor>round32 (u' * 10)\<rfloor> = \<lfloor>round32 (u * 10)\<rfloor> + 1 \<Longrightarrow>
      (\<lfloor>round32 (u' * 10)\<rfloor> + \<lfloor>round32 (v * 10)\<rfloor>) mod 2 = 1 - ?k mod 2"
    using f by (simp add: add.commute add.left_commute)
  show ?thesis
    unfolding p p' using b f' by auto
qed

theorem checker_binary_and_flips_witness:
  "(0::real) \<le> 13421773 / 2 ^ 28 \<and> (13421773 / 2 ^ 28 :: real) \<le> 1
   \<and> (0::real) \<le> 10066330 / 2 ^ 26 \<and> (10066330 / 2 ^ 26 :: real) \<le> 1
   \<and> \<lfloor>round32 (10066330 / 2 ^ 26 * 10)\<rfloor> = \<lfloor>round32 (13421773 / 2 ^ 28 * 10)\<rfloor> + 1
   \<and> pyramid_checker (Num (13421773 / 2 ^ 28), Num (13421773 / 2 ^ 28)) = Num 0
   \<and> pyramid_checker (Num (10066330 / 2 ^ 26), Num (13421773 / 2 ^ 28)) = Num 1"
proof -
  have c: "\<lfloor>round32 (10066330 / 2 ^ 26 * 10)\<rfloor> = \<lfloor>round32 (13421773 / 2 ^ 28 * 10)\<rfloor> + 1"
    by (simp add: fl32_eval)
  have z: "pyramid_checker (Num (13421773 / 2 ^ 28), Num (13421773 / 2 ^ 28)) = Num 0"
    by (simp add: pyramid_checker_def gl_mod_def fl32_eval)
  show ?thesis
    using c z checker_binary_and_flips
      [of "13421773 / 2 ^ 28" "13421773 / 2 ^ 28" "10066330 / 2 ^ 26"]
    by simp
qed

lemma checker_values_at_shift:
  "fl32 (1 / 20) = Num (13421773 / 2 ^ 28)"
  "gl_add (fl32 (1 / 20)) (fl32 (1 / 10)) = Num (10066330 / 2 ^ 26)"
  "pyramid_checker (fl32 (1 / 20), fl32 (1 / 20)) = Num 0"
  "pyramid_checker (gl_add (fl32 (1 / 20)) (fl32 (1 / 10)), fl32 (1 / 20)) = Num 1"
  by (simp_all add: pyramid_checker_def gl_mod_def fl32_eval)

text \<open>
  C2 as stated fails: from \<open>u = v = 0.05\<close>, the shift of \<open>u\<close> by 0.1 changes the value
  from 0 to 1.
\<close>

theorem checker_shift_changes_value:
  "pyramid_checker (gl_add (fl32 (1 / 20)) (fl32 (1 / 10)), fl32 (1 / 20))
   \<noteq> pyramid_checker (fl32 (1 / 20), fl32 (1 / 20))"
  by (simp add: pyramid_checker_def gl_mod_def fl32_eval)

text \<open>
  The shift by 0.1 does not always reach the next cell: from the binary32 number below
  0.6 it leads to the binary32 number nearest 0.7, whose product with 10 rounds to 7, and
  both points have the value 1.
\<close>

lemma checker_shift_can_keep_value:
  "fl32 (7 / 10) = Num (11744051 / 2 ^ 24)"
  "gl_mul (Num (11744051 / 2 ^ 24)) (Num 10) = Num 7"
  "gl_add (Num (10066329 / 2 ^ 24)) (fl32 (1 / 10)) = Num (11744051 / 2 ^ 24)"
  "pyramid_checker (Num (10066329 / 2 ^ 24), Num 0) = Num 1"
  "pyramid_checker (Num (11744051 / 2 ^ 24), Num 0) = Num 1"
  by (simp_all add: pyramid_checker_def gl_mod_def fl32_eval)


section \<open>The sun vertex shader\<close>

lemma sun_displacement_eq:
  "sun_displacement u (x, y, z) =
     spec_displacement (uWaveHeight u) (uWaveSpeed u) (uSmallWaveFrequency u)
       (uSmallWaveSpeed u) (uTime u) x y"
  by (simp add: sun_displacement_def sun_wave_def sun_smallWave_def spec_displacement_def
      Let_def)

text \<open>
  C3. For every vertex position, normal, time and uniform values the sun vertex shader
  projects position plus normal times displacement, where the displacement is the formula
  of the specification.
\<close>

theorem sun_vertex_shader_formula:
  "sun_displacement u (x, y, z) =
     spec_displacement (uWaveHeight u) (uWaveSpeed u) (uSmallWaveFrequency u)
       (uSmallWaveSpeed u) (uTime u) x y
   \<and> sun_newPosition u (x, y, z) (nx, ny, nz) =
       (x + nx * sun_displacement u (x, y, z),
        y + ny * sun_displacement u (x, y, z),
        z + nz * sun_displacement u (x, y, z))
   \<and> gl_Position (sun_vertexShader P MV u (x, y, z) (nx, ny, nz) uv) =
       mat4_mul_vec4 (mat4_mul P MV)
         (x + nx * sun_displacement u (x, y, z),
          y + ny * sun_displacement u (x, y, z),
          z + nz * sun_displacement u (x, y, z), 1)"
  by (simp add: sun_displacement_eq sun_newPosition_def sun_vertexShader_def)


subsection \<open>Time zero\<close>

lemma cos_upper: 
  assumes "0 < (x::real)"
  shows "cos x \<le> 1 - x^2 / 2 + x^4 / 24"
proof -
  obtain t where t: "cos x = (\<Sum>m<4. cos_coeff m * x ^ m) + (cos (t + 1/2 * real 4 * pi) / fact 4) * x ^ 4"
    using Maclaurin_cos_expansion2 [of x 4] assms by auto
  have s: "(\<Sum>m<4. cos_coeff m * x ^ m) = 1 - x^2 / 2"
  proof -
    have "{..<4::nat} = {0, 1, 2, 3}" by auto
    then show ?thesis by (simp add: cos_coeff_def)
  qed
  have "cos (t + 1/2 * real 4 * pi) \<le> 1" by (rule cos_le_one)
  then have "(cos (t + 1/2 * real 4 * pi) / fact 4) * x ^ 4 \<le> (1 / fact 4) * x ^ 4"
    by (intro mult_right_mono divide_right_mono) auto
  also have "\<dots> = x^4 / 24" by (simp add: fact_numeral)
  finally show ?thesis using t s by linarith
qed

lemma pi_less: "pi < 10 / 3"
proof -
  have "cos (5 / 3 :: real) \<le> 1 - (5/3)^2 / 2 + (5/3)^4 / 24"
    by (rule cos_upper) simp
  also have "\<dots> < 0" by (simp add: power2_eq_square power4_eq_xxxx)
  finally have neg: "cos (5 / 3 :: real) < 0" .
  show ?thesis
  proof (rule ccontr)
    assume "\<not> pi < 10 / 3"
    then have "5 / 3 \<le> pi / 2" by simp
    then have "0 \<le> cos (5 / 3 :: real)"
      by (intro cos_ge_zero) auto
    with neg show False by simp
  qed
qed

lemma pi_ge_3: "3 \<le> pi"
proof -
  have "sin (pi / 6) \<le> pi / 6" by (rule sin_x_le_x) simp
  then show ?thesis by (simp add: sin_30)
qed

lemma sin_10_neq_0: "sin (10::real) \<noteq> 0"
proof
  assume "sin (10::real) = 0"
  then obtain i :: int where i: "10 = of_int i * pi"
    using sin_zero_iff_int2 [of "10::real"] by auto
  have "i \<le> 3 \<or> 4 \<le> i" by linarith
  then show False
  proof
    assume "i \<le> 3"
    then have "of_int i * pi \<le> 3 * pi"
      by (intro mult_right_mono) auto
    with i pi_less show False by linarith
  next
    assume "4 \<le> i"
    then have "4 * pi \<le> of_int i * pi"
      by (intro mult_right_mono) auto
    with i pi_ge_3 show False by linarith
  qed
qed

text \<open>
  C1 (as amended). With the initial uniform values and time 0 the displacement of a vertex
  at \<open>(x, y, z)\<close> is \<open>0.15 * (0.05 * sin (10 x) + 0.03 * sin (10 y))\<close>; it is 0, and
  the vertex stays where it is, where \<open>x\<close> and \<open>y\<close> are both 0.
\<close>

theorem sun_displacement_at_time_zero:
  "sun_displacement sun_initial_uniforms (x, y, z) =
     15 / 100 * (sin (x * 10) * (5 / 100) + sin (y * 10) * (3 / 100))
   \<and> sun_newPosition sun_initial_uniforms (0, 0, z) (nx, ny, nz) = (0, 0, z)"
  by (simp add: sun_newPosition_def sun_displacement_eq spec_displacement_def
      sun_initial_uniforms_def)

text \<open>
  C1 as stated fails: at time 0 the pole \<open>(0, 1, 0)\<close> of the unit sphere, whose normal is
  \<open>(0, 1, 0)\<close>, is moved by \<open>0.0045 * sin 10\<close>, which is not 0.
\<close>

theorem sun_pole_displaced_at_time_zero:
  "sun_newPosition sun_initial_uniforms (0, 1, 0) (0, 1, 0) \<noteq> (0, 1, 0)"
  using sin_10_neq_0
  by (simp add: sun_newPosition_def sun_displacement_eq spec_displacement_def
      sun_initial_uniforms_def)


subsection \<open>Continuity and periods\<close>

text \<open>
  C7. For a fixed vertex and uniform values with both speeds nonzero, the displacement is
  a continuous function of the time, its first term has period \<open>2 pi / uWaveSpeed\<close> and
  its second term has period \<open>2 pi / uSmallWaveSpeed\<close>.
\<close>

theorem sun_displacement_continuous_periodic:
  assumes "uWaveSpeed u \<noteq> 0" and "uSmallWaveSpeed u \<noteq> 0"
  shows "continuous_on UNIV (\<lambda>t. sun_displacement (u\<lparr>uTime := t\<rparr>) (x, y, z))
    \<and> (\<forall>t. sun_wave (u\<lparr>uTime := t + 2 * pi / uWaveSpeed u\<rparr>) (x, y, z)
           = sun_wave (u\<lparr>uTime := t\<rparr>) (x, y, z))
    \<and> (\<forall>t. sun_smallWave (u\<lparr>uTime := t + 2 * pi / uSmallWaveSpeed u\<rparr>) (x, y, z)
           = sun_smallWave (u\<lparr>uTime := t\<rparr>) (x, y, z))
    \<and> (\<forall>t. sun_displacement (u\<lparr>uTime := t\<rparr>) (x, y, z)
           = (sun_wave (u\<lparr>uTime := t\<rparr>) (x, y, z)
              + sun_smallWave (u\<lparr>uTime := t\<rparr>) (x, y, z)) * uWaveHeight u)"
proof -
  have c: "continuous_on UNIV (\<lambda>t. sun_displacement (u\<lparr>uTime := t\<rparr>) (x, y, z))"
    unfolding sun_displacement_def sun_wave_def sun_smallWave_def Let_def
    by (auto intro!: continuous_intros)
  have w: "sun_wave (u\<lparr>uTime := t + 2 * pi / uWaveSpeed u\<rparr>) (x, y, z)
           = sun_wave (u\<lparr>uTime := t\<rparr>) (x, y, z)" for t
  proof -
    have "x * 10 + (t + 2 * pi / uWaveSpeed u) * uWaveSpeed u
          = (x * 10 + t * uWaveSpeed u) + 2 * pi"
      using assms(1) by (simp add: distrib_right)
    then have "sin (x * 10 + (t + 2 * pi / uWaveSpeed u) * uWaveSpeed u)
          = sin ((x * 10 + t * uWaveSpeed u) + 2 * pi)"
      by (rule arg_cong)
    also have "\<dots> = sin (x * 10 + t * uWaveSpeed u)"
      by (rule sin_periodic)
    finally show ?thesis by (simp add: sun_wave_def)
  qed
  have sw: "sun_smallWave (u\<lparr>uTime := t + 2 * pi / uSmallWaveSpeed u\<rparr>) (x, y, z)
           = sun_smallWave (u\<lparr>uTime := t\<rparr>) (x, y, z)" for t
  proof -
    have "y * uSmallWaveFrequency u + (t + 2 * pi / uSmallWaveSpeed u) * uSmallWaveSpeed u
          = (y * uSmallWaveFrequency u + t * uSmallWaveSpeed u) + 2 * pi"
      using assms(2) by (simp add: distrib_right)
    then have "sin (y * uSmallWaveFrequency u
                 + (t + 2 * pi / uSmallWaveSpeed u) * uSmallWaveSpeed u)
          = sin ((y * uSmallWaveFrequency u + t * uSmallWaveSpeed u) + 2 * pi)"
      by (rule arg_cong)
    also have "\<dots> = sin (y * uSmallWaveFrequency u + t * uSmallWaveSpeed u)"
      by (rule sin_periodic)
    finally show ?thesis by (simp add: sun_smallWave_def)
  qed
  show ?thesis using c w sw by (simp add: sun_displacement_def Let_def)
qed

theorem sun_displacement_continuous_periodic_witness:
  "uWaveSpeed sun_initial_uniforms \<noteq> 0 \<and> uSmallWaveSpeed sun_initial_uniforms \<noteq> 0
   \<and> continuous_on UNIV (\<lambda>t. sun_displacement (sun_initial_uniforms\<lparr>uTime := t\<rparr>) (0, 1, 0))
   \<and> (\<forall>t. sun_wave (sun_initial_uniforms\<lparr>uTime := t + 2 * pi / 1\<rparr>) (0, 1, 0)
          = sun_wave (sun_initial_uniforms\<lparr>uTime := t\<rparr>) (0, 1, 0))
   \<and> (\<forall>t. sun_smallWave (sun_initial_uniforms\<lparr>uTime := t + 2 * pi / 2\<rparr>) (0, 1, 0)
          = sun_smallWave (sun_initial_uniforms\<lparr>uTime := t\<rparr>) (0, 1, 0))"
proof -
  have h1: "uWaveSpeed sun_initial_uniforms \<noteq> 0"
    and h2: "uSmallWaveSpeed sun_initial_uniforms \<noteq> 0"
    by (simp_all add: sun_initial_uniforms_def)
  have s1: "uWaveSpeed sun_initial_uniforms = 1"
    and s2: "uSmallWaveSpeed sun_initial_uniforms = 2"
    by (simp_all add: sun_initial_uniforms_def)
  show ?thesis
    using h1 h2 sun_displacement_continuous_periodic [OF h1 h2, of 0 1 0]
    unfolding s1 s2 by blast
qed


section \<open>The sun displacement as computed\<close>

lemma sun_constants:
  "fl32 (5 / 100) = Num (13421773 / 2 ^ 28)"
  "fl32 (3 / 100) = Num (16106127 / 2 ^ 29)"
  "round32 (13421773 / 2 ^ 28) = 13421773 / 2 ^ 28"
  "round32 (16106127 / 2 ^ 29) = 16106127 / 2 ^ 29"
  "round32 (13421773 / 2 ^ 28 + 16106127 / 2 ^ 29) = 5368709 / 2 ^ 26"
  "round32 1 = 1"
  by (simp_all add: fl32_eval)

lemma scaled_sine:
  fixes a c :: real
  assumes "round32 c = c" and "0 \<le> c" and "c \<le> 1"
  defines "w \<equiv> round32 (round32 (sin a) * c)"
  shows "gl_mul (gl_sin (Num a)) (Num c) = Num w" and "\<bar>w\<bar> \<le> c"
proof -
  have s: "\<bar>round32 (sin a)\<bar> \<le> 1"
    by (rule round32_abs_le [OF _ sun_constants(6)]) simp
  have "\<bar>sin a\<bar> \<le> 2 ^ 100"
  proof -
    have "\<bar>sin a\<bar> \<le> 1" by simp
    moreover have "(1::real) \<le> 2 ^ 100" by simp
    ultimately show ?thesis by (rule order_trans)
  qed
  then have f1: "gl_sin (Num a) = Num (round32 (sin a))" by (simp add: fl32_finite)
  have p: "\<bar>round32 (sin a) * c\<bar> \<le> c"
  proof -
    have "\<bar>round32 (sin a)\<bar> * c \<le> 1 * c" using s assms(2) by (intro mult_right_mono)
    then show ?thesis using assms(2) by (simp add: abs_mult)
  qed
  have "\<bar>round32 (sin a) * c\<bar> \<le> 2 ^ 100"
  proof -
    have "(1::real) \<le> 2 ^ 100" by simp
    with p assms(3) show ?thesis by linarith
  qed
  then show "gl_mul (gl_sin (Num a)) (Num c) = Num w"
    unfolding f1 w_def by (simp add: fl32_finite)
  show "\<bar>w\<bar> \<le> c" unfolding w_def by (rule round32_abs_le [OF p assms(1)])
qed

text \<open>
  C10 (as amended). Where the two sine arguments are finite and the wave height is a
  number of magnitude between \<open>2^-122\<close> and \<open>2^100\<close>, the computed displacement is
  the rounded product of the wave height and the rounded sum of the two rounded sine
  terms; its magnitude is at most \<open>0.08 * |uWaveHeight|\<close> evaluated in binary32, which
  is at most \<open>0.08 * |uWaveHeight| * (1 + 2^-24)\<close>; and the output vertex is the position
  plus the normal times that displacement, each operation rounded.
\<close>

theorem sun_displacement_bounded:
  assumes "gl_add (gl_mul x (Num 10)) (gl_mul (uTime32 u) (uWaveSpeed32 u)) = Num a1"
    and "gl_add (gl_mul y (uSmallWaveFrequency32 u)) (gl_mul (uTime32 u) (uSmallWaveSpeed32 u))
         = Num a2"
    and "uWaveHeight32 u = Num h"
    and "1 / 2 ^ 122 \<le> \<bar>h\<bar>" and "\<bar>h\<bar> \<le> 2 ^ 100"
  shows "(let w = round32 (round32 (sin a1) * round32 (5 / 100));
              sw = round32 (round32 (sin a2) * round32 (3 / 100));
              d = round32 (round32 (w + sw) * h)
          in sun_displacement32 u (x, y, z) = Num d
             \<and> \<bar>w\<bar> \<le> round32 (5 / 100) \<and> \<bar>sw\<bar> \<le> round32 (3 / 100)
             \<and> \<bar>d\<bar> \<le> round32 (round32 (8 / 100) * \<bar>h\<bar>)
             \<and> \<bar>d\<bar> \<le> 8 / 100 * \<bar>h\<bar> * (1 + 1 / 2 ^ 24)
             \<and> sun_newPosition32 u (x, y, z) (nx, ny, nz)
                 = (gl_add x (gl_mul nx (Num d)), gl_add y (gl_mul ny (Num d)),
                    gl_add z (gl_mul nz (Num d))))"
proof -
  define c1 :: real where "c1 = 13421773 / 2 ^ 28"
  define c2 :: real where "c2 = 16106127 / 2 ^ 29"
  define K :: real where "K = 5368709 / 2 ^ 26"
  have r1: "round32 (5 / 100) = c1" and r2: "round32 (3 / 100) = c2"
    and r8: "round32 (8 / 100) = K"
    by (simp_all add: c1_def c2_def K_def fl32_eval)
  have f1: "fl32 (5 / 100) = Num c1" and f2: "fl32 (3 / 100) = Num c2"
    by (simp_all only: c1_def c2_def sun_constants)
  have i1: "round32 c1 = c1" and i2: "round32 c2 = c2" and rK: "round32 (c1 + c2) = K"
    by (simp_all only: c1_def c2_def K_def sun_constants)
  have cb: "0 \<le> c1" "c1 \<le> 1" "0 \<le> c2" "c2 \<le> 1" "0 \<le> K" "K \<le> 8 / 100" "1 / 2 ^ 4 \<le> K"
    by (simp_all add: c1_def c2_def K_def)
  define w where "w = round32 (round32 (sin a1) * c1)"
  define sw where "sw = round32 (round32 (sin a2) * c2)"
  define d0 where "d0 = round32 (w + sw)"
  define d where "d = round32 (d0 * h)"
  note W = scaled_sine [OF i1 cb(1,2), of a1, folded w_def]
  note SW = scaled_sine [OF i2 cb(3,4), of a2, folded sw_def]
  have wave: "sun_wave32 u (x, y, z) = Num w"
    unfolding sun_wave32_def fst_conv assms(1) f1 by (rule W(1))
  have small: "sun_smallWave32 u (x, y, z) = Num sw"
    unfolding sun_smallWave32_def fst_conv snd_conv assms(2) f2 by (rule SW(1))
  have sum: "\<bar>w + sw\<bar> \<le> c1 + c2" using W(2) SW(2) by linarith
  have d0: "\<bar>d0\<bar> \<le> K"
    unfolding d0_def using round32_abs_mono [OF sum] by (simp only: rK)
  have "\<bar>w + sw\<bar> \<le> 2 ^ 100"
  proof -
    have "(2::real) \<le> 2 ^ 100" by simp
    with sum cb(2,4) show ?thesis by linarith
  qed
  then have add: "gl_add (Num w) (Num sw) = Num d0"
    by (simp add: d0_def fl32_finite)
  have prod: "\<bar>d0 * h\<bar> \<le> K * \<bar>h\<bar>"
  proof -
    have "\<bar>d0\<bar> * \<bar>h\<bar> \<le> K * \<bar>h\<bar>" using d0 by (intro mult_right_mono) simp_all
    then show ?thesis by (simp add: abs_mult)
  qed
  have "K * \<bar>h\<bar> \<le> 1 * 2 ^ 100"
    using cb(5,6) assms(5) by (intro mult_mono) simp_all
  with prod have "\<bar>d0 * h\<bar> \<le> 2 ^ 100" by simp
  then have mul: "gl_mul (Num d0) (Num h) = Num d"
    by (simp add: d_def fl32_finite)
  have disp: "sun_displacement32 u (x, y, z) = Num d"
    unfolding sun_displacement32_def Let_def wave small add assms(3) by (rule mul)
  have "pow2 (- 126) = 1 / 2 ^ 4 * (1 / 2 ^ 122)" by (simp add: pow2_def)
  also have "\<dots> \<le> K * \<bar>h\<bar>"
    using cb(7) assms(4) by (intro mult_mono) simp_all
  finally have "round32 (K * \<bar>h\<bar>) \<le> K * \<bar>h\<bar> * (1 + 1 / 2 ^ 24)"
    by (rule round32_rel_bound)
  also have "\<dots> \<le> 8 / 100 * \<bar>h\<bar> * (1 + 1 / 2 ^ 24)"
    using cb(6) by (intro mult_right_mono) simp_all
  finally have bound: "\<bar>d\<bar> \<le> 8 / 100 * \<bar>h\<bar> * (1 + 1 / 2 ^ 24)"
    using round32_abs_mono [OF prod] unfolding d_def by linarith
  have bound32: "\<bar>d\<bar> \<le> round32 (K * \<bar>h\<bar>)"
    unfolding d_def by (rule round32_abs_mono [OF prod])
  have new: "sun_newPosition32 u (x, y, z) (nx, ny, nz)
      = (gl_add x (gl_mul nx (Num d)), gl_add y (gl_mul ny (Num d)), gl_add z (gl_mul nz (Num d)))"
    unfolding sun_newPosition32_def disp by simp
  show ?thesis
    unfolding Let_def r1 r2 r8
    using disp W(2) SW(2) bound32 bound new
    by (simp only: w_def [symmetric] sw_def [symmetric] d0_def [symmetric] d_def [symmetric])
qed

theorem sun_displacement_bounded_witness:
  "gl_add (gl_mul (Num 0) (Num 10)) (gl_mul (Num 0) (Num 1)) = Num 0
   \<and> gl_add (gl_mul (Num 1) (Num 10)) (gl_mul (Num 0) (Num 2)) = Num 10
   \<and> (1 / 2 ^ 122 :: real) \<le> \<bar>10066330 / 2 ^ 26\<bar> \<and> \<bar>10066330 / 2 ^ 26 :: real\<bar> \<le> 2 ^ 100
   \<and> (\<exists>d. sun_displacement32
           \<lparr>uTime32 = Num 0, uWaveSpeed32 = Num 1, uSmallWaveFrequency32 = Num 10,
            uSmallWaveSpeed32 = Num 2, uWaveHeight32 = Num (10066330 / 2 ^ 26)\<rparr>
           (Num 0, Num 1, Num 0) = Num d
         \<and> \<bar>d\<bar> \<le> 8 / 100 * \<bar>10066330 / 2 ^ 26\<bar> * (1 + 1 / 2 ^ 24))"
proof -
  define u where "u = \<lparr>uTime32 = Num 0, uWaveSpeed32 = Num 1, uSmallWaveFrequency32 = Num 10,
            uSmallWaveSpeed32 = Num 2, uWaveHeight32 = Num (10066330 / 2 ^ 26)\<rparr>"
  have h1: "gl_add (gl_mul (Num 0) (Num 10)) (gl_mul (uTime32 u) (uWaveSpeed32 u)) = Num 0"
    and h2: "gl_add (gl_mul (Num 1) (uSmallWaveFrequency32 u))
               (gl_mul (uTime32 u) (uSmallWaveSpeed32 u)) = Num 10"
    and h3: "uWaveHeight32 u = Num (10066330 / 2 ^ 26)"
    by (simp_all add: u_def fl32_eval)
  have h4: "(1 / 2 ^ 122 :: real) \<le> \<bar>10066330 / 2 ^ 26\<bar>"
    and h5: "\<bar>10066330 / 2 ^ 26 :: real\<bar> \<le> 2 ^ 100"
    by simp_all
  have e: "gl_add (gl_mul (Num 0) (Num 10)) (gl_mul (Num 0) (Num 1)) = Num 0"
    "gl_add (gl_mul (Num 1) (Num 10)) (gl_mul (Num 0) (Num 2)) = Num 10"
    by (simp_all add: fl32_eval)
  from sun_displacement_bounded [OF h1 h2 h3 h4 h5, of "Num 0" "Num 0" "Num 0" "Num 0"]
  have "\<exists>d. sun_displacement32 u (Num 0, Num 1, Num 0) = Num d
         \<and> \<bar>d\<bar> \<le> 8 / 100 * \<bar>10066330 / 2 ^ 26\<bar> * (1 + 1 / 2 ^ 24)"
    unfolding Let_def by blast
  then show ?thesis using e h4 h5 unfolding u_def by blast
qed


subsection \<open>An input that passes the exact bound\<close>

lemma cos_taylor_12:
  assumes "0 < (x::real)"
  shows "\<bar>cos x - (1 - x^2 / 2 + x^4 / 24 - x^6 / 720 + x^8 / 40320 - x^10 / 3628800)\<bar>
         \<le> x^12 / 479001600"
proof -
  obtain t where t: "cos x = (\<Sum>m<12. cos_coeff m * x ^ m)
      + (cos (t + 1/2 * real 12 * pi) / fact 12) * x ^ 12"
    using Maclaurin_cos_expansion2 [of x 12] assms by auto
  have s: "(\<Sum>m<12. cos_coeff m * x ^ m)
      = 1 - x^2 / 2 + x^4 / 24 - x^6 / 720 + x^8 / 40320 - x^10 / 3628800"
  proof -
    have "{..<12::nat} = {0, 1, 2, 3, 4, 5, 6, 7, 8, 9, 10, 11}"
      by (rule set_eqI) (simp, presburger)
    then show ?thesis by (simp add: cos_coeff_def fact_numeral)
  qed
  have "\<bar>cos (t + 1/2 * real 12 * pi)\<bar> \<le> 1" by (rule abs_cos_le_one)
  then have "\<bar>cos (t + 1/2 * real 12 * pi)\<bar> * (x ^ 12 / fact 12) \<le> 1 * (x ^ 12 / fact 12)"
    using assms by (intro mult_right_mono) simp_all
  then have "\<bar>(cos (t + 1/2 * real 12 * pi) / fact 12) * x ^ 12\<bar> \<le> x ^ 12 / 479001600"
    using assms by (simp add: abs_mult fact_numeral)
  then show ?thesis unfolding t s by simp
qed

lemma half_pi_bounds: "15706 / 10000 < pi / 2" "pi / 2 < 15709 / 10000"
proof -
  let ?P = "\<lambda>x::real. 1 - x^2 / 2 + x^4 / 24 - x^6 / 720 + x^8 / 40320 - x^10 / 3628800"
  let ?E = "\<lambda>x::real. x^12 / 479001600"
  have "\<bar>cos (15706 / 10000 :: real) - ?P (15706 / 10000)\<bar> \<le> ?E (15706 / 10000)"
    by (rule cos_taylor_12) simp
  moreover have "0 < ?P (15706 / 10000) - ?E (15706 / 10000)"
    by (simp add: power_divide)
  ultimately have lo: "0 < cos (15706 / 10000 :: real)" by linarith
  have "\<bar>cos (15709 / 10000 :: real) - ?P (15709 / 10000)\<bar> \<le> ?E (15709 / 10000)"
    by (rule cos_taylor_12) simp
  moreover have "?P (15709 / 10000) + ?E (15709 / 10000) < 0"
    by (simp add: power_divide)
  ultimately have hi: "cos (15709 / 10000 :: real) < 0" by linarith
  show "15706 / 10000 < pi / 2"
  proof (rule ccontr)
    assume "\<not> 15706 / 10000 < pi / 2"
    then have a: "pi / 2 \<le> 15706 / 10000" by simp
    have "15706 / 10000 \<le> pi" using pi_ge_3 by simp
    with a have "cos (15706 / 10000) \<le> cos (pi / 2)"
      by (intro cos_monotone_0_pi_le) simp_all
    with lo show False by simp
  qed
  show "pi / 2 < 15709 / 10000"
  proof (rule ccontr)
    assume "\<not> pi / 2 < 15709 / 10000"
    then have "15709 / 10000 \<le> pi / 2" by simp
    then have "0 \<le> cos (15709 / 10000 :: real)" by (intro cos_ge_zero) simp_all
    with hi show False by simp
  qed
qed

lemma cos_ge_quadratic: "1 - x\<^sup>2 / 2 \<le> cos (x::real)"
proof -
  have "\<bar>sin (x / 2)\<bar> \<le> \<bar>x / 2\<bar>" by (rule abs_sin_x_le_abs_x)
  then have "(sin (x / 2))\<^sup>2 \<le> (x / 2)\<^sup>2" by (rule abs_le_square_iff [THEN iffD1])
  moreover have "cos x = 1 - 2 * (sin (x / 2))\<^sup>2"
    using cos_double_sin [of "x / 2"] by simp
  ultimately show ?thesis by (simp add: power2_eq_square)
qed

lemma sin_near_half_pi: "1 - 1 / 2 ^ 25 < sin (25735 / 16384 :: real)"
proof -
  define b :: real where "b = 25735 / 16384"
  have "\<bar>pi / 2 - b\<bar> \<le> 2 / 10000"
    using half_pi_bounds unfolding b_def by linarith
  then have "(pi / 2 - b)\<^sup>2 \<le> (2 / 10000)\<^sup>2"
    by (intro abs_le_square_iff [THEN iffD1]) simp
  then have "1 - (2 / 10000)\<^sup>2 / 2 \<le> 1 - (pi / 2 - b)\<^sup>2 / 2" by simp
  also have "\<dots> \<le> cos (pi / 2 - b)" by (rule cos_ge_quadratic)
  also have "\<dots> = sin b" using sin_cos_eq [of b] by simp
  finally have "1 - (2 / 10000)\<^sup>2 / 2 \<le> sin b" .
  moreover have "(1 - 1 / 2 ^ 25 :: real) < 1 - (2 / 10000)\<^sup>2 / 2"
    by (simp add: power2_eq_square)
  ultimately show ?thesis unfolding b_def by linarith
qed

lemma round32_near_one:
  assumes "1 - 1 / 2 ^ 25 < q" and "q \<le> 1"
  shows "round32 q = 1"
proof (cases "q = 1")
  case True
  then show ?thesis by (simp add: sun_constants)
next
  case False
  with assms have q: "0 < q" "q < 1" "1 / 2 \<le> q" by simp_all
  have e: "floor_log2 q = - 1"
    using q by (intro floor_log2_unique) (simp_all add: pow2_def)
  have u: "pow2 (max (- 1) (- 126) - 23) = 1 / 2 ^ 24" by (simp add: pow2_def)
  have "round_half_even (q / (1 / 2 ^ 24)) = 2 ^ 24"
    using assms(1) q(2) by (intro round_half_even_unique) (simp_all add: field_simps)
  then show ?thesis unfolding round32_pos_form [OF q(1)] e u by simp
qed

lemma round32_sin_near_half_pi: "round32 (sin (25735 / 16384)) = 1"
  by (rule round32_near_one [OF sin_near_half_pi]) simp

text \<open>
  C10 as stated fails: with the wave height at the control's minimum 0.05 and a vertex
  where both sine arguments are 1.5707397, both sines round to 1 and the displacement is
  0.00400000019, above \<open>0.08 * uWaveHeight = 0.00400000006\<close>.
\<close>

theorem sun_displacement_exceeds_real_bound:
  "sun_displacement32
     \<lparr>uTime32 = Num 0, uWaveSpeed32 = Num 1, uSmallWaveFrequency32 = Num 10,
      uSmallWaveSpeed32 = Num 2, uWaveHeight32 = Num (13421773 / 2 ^ 28)\<rparr>
     (Num (5147 / 32768), Num (5147 / 32768), Num (31949 / 32768))
     = Num (8589935 / 2 ^ 31)
   \<and> \<not> \<bar>8589935 / 2 ^ 31 :: real\<bar> \<le> 8 / 100 * \<bar>13421773 / 2 ^ 28\<bar>"
proof -
  have arg: "fl32 (5147 / 32768 * 10) = Num (25735 / 16384)"
    "fl32 (0 * 1) = Num 0" "fl32 (0 * 2) = Num 0"
    "fl32 (25735 / 16384 + 0) = Num (25735 / 16384)"
    by (simp_all add: fl32_eval)
  have "\<bar>sin (25735 / 16384 :: real)\<bar> \<le> 2 ^ 100"
  proof -
    have "\<bar>sin (25735 / 16384 :: real)\<bar> \<le> 1" by simp
    moreover have "(1::real) \<le> 2 ^ 100" by simp
    ultimately show ?thesis by (rule order_trans)
  qed
  then have sn: "fl32 (sin (25735 / 16384)) = Num 1"
    by (simp only: fl32_finite round32_sin_near_half_pi)
  have rest: "fl32 (1 * (13421773 / 2 ^ 28)) = Num (13421773 / 2 ^ 28)"
    "fl32 (1 * (16106127 / 2 ^ 29)) = Num (16106127 / 2 ^ 29)"
    "fl32 (13421773 / 2 ^ 28 + 16106127 / 2 ^ 29) = Num (5368709 / 2 ^ 26)"
    "fl32 (5368709 / 2 ^ 26 * (13421773 / 2 ^ 28)) = Num (8589935 / 2 ^ 31)"
    by (simp_all add: fl32_eval)
  have w: "sun_wave32
     \<lparr>uTime32 = Num 0, uWaveSpeed32 = Num 1, uSmallWaveFrequency32 = Num 10,
      uSmallWaveSpeed32 = Num 2, uWaveHeight32 = Num (13421773 / 2 ^ 28)\<rparr>
     (Num (5147 / 32768), Num (5147 / 32768), Num (31949 / 32768)) = Num (13421773 / 2 ^ 28)"
    by (simp only: sun_wave32_def fst_conv sun_uniforms32.simps gl_mul.simps gl_add.simps
        gl_sin.simps arg sn sun_constants rest)
  have sw: "sun_smallWave32
     \<lparr>uTime32 = Num 0, uWaveSpeed32 = Num 1, uSmallWaveFrequency32 = Num 10,
      uSmallWaveSpeed32 = Num 2, uWaveHeight32 = Num (13421773 / 2 ^ 28)\<rparr>
     (Num (5147 / 32768), Num (5147 / 32768), Num (31949 / 32768)) = Num (16106127 / 2 ^ 29)"
    by (simp only: sun_smallWave32_def fst_conv snd_conv sun_uniforms32.simps gl_mul.simps
        gl_add.simps gl_sin.simps arg sn sun_constants rest)
  have "sun_displacement32
     \<lparr>uTime32 = Num 0, uWaveSpeed32 = Num 1, uSmallWaveFrequency32 = Num 10,
      uSmallWaveSpeed32 = Num 2, uWaveHeight32 = Num (13421773 / 2 ^ 28)\<rparr>
     (Num (5147 / 32768), Num (5147 / 32768), Num (31949 / 32768))
     = Num (8589935 / 2 ^ 31)"
    by (simp only: sun_displacement32_def Let_def w sw sun_uniforms32.simps gl_mul.simps
        gl_add.simps rest)
  moreover have "\<not> \<bar>8589935 / 2 ^ 31 :: real\<bar> \<le> 8 / 100 * \<bar>13421773 / 2 ^ 28\<bar>"
    by simp
  ultimately show ?thesis by (rule conjI)
qed


section \<open>The radial gradient face\<close>

lemma round32_sqrt_eighth: "round32 (sqrt (1 / 8)) = 11863283 / 2 ^ 25"
proof -
  have lo: "1 / 4 \<le> sqrt (1 / 8 :: real)"
    by (rule real_le_rsqrt) (simp add: power2_eq_square)
  have hi: "sqrt (1 / 8 :: real) < 1 / 2"
    by (rule real_less_lsqrt) (simp_all add: power2_eq_square)
  have pos: "0 < sqrt (1 / 8 :: real)" by simp
  have e: "floor_log2 (sqrt (1 / 8)) = - 2"
    using lo hi by (intro floor_log2_unique) (simp_all add: pow2_def)
  have u: "pow2 (max (- 2) (- 126) - 23) = 1 / 2 ^ 25" by (simp add: pow2_def)
  have m: "sqrt (1 / 8 :: real) / (1 / 2 ^ 25) = sqrt (2 ^ 47)"
  proof -
    have "sqrt (2 ^ 47 :: real) = sqrt ((1 / 8) * (2 ^ 25 * 2 ^ 25))" by simp
    also have "\<dots> = sqrt (1 / 8) * sqrt (2 ^ 25 * 2 ^ 25)" by (rule real_sqrt_mult)
    also have "sqrt (2 ^ 25 * 2 ^ 25 :: real) = 2 ^ 25"
      using real_sqrt_abs2 [of "2 ^ 25"] by (simp only: abs_of_nonneg zero_le_power zero_le_numeral)
    finally show ?thesis by simp
  qed
  have n: "round_half_even (sqrt (2 ^ 47)) = 11863283"
  proof (rule round_half_even_unique)
    show "real_of_int 11863283 - 1 / 2 < sqrt (2 ^ 47)"
      by (rule real_less_rsqrt) (simp add: power2_eq_square)
    show "sqrt (2 ^ 47) < real_of_int 11863283 + 1 / 2"
      by (rule real_less_lsqrt) (simp_all add: power2_eq_square)
  qed
  show ?thesis
    unfolding round32_pos_form [OF pos] e u m n by simp
qed

lemma round32_exact_values:
  "round32 (1 / 2) = 1 / 2" "round32 (1 / 4) = 1 / 4" "round32 1 = 1"
  by (simp_all add: fl32_eval)

lemma sqrt_diff_le: 
  assumes "0 \<le> a" and "0 \<le> b"
  shows "\<bar>sqrt a - sqrt b\<bar> \<le> sqrt \<bar>a - b\<bar>"
proof -
  have *: "sqrt x - sqrt y \<le> sqrt \<bar>x - y\<bar>" if "0 \<le> y" "y \<le> x" for x y :: real
  proof -
    have "sqrt x = sqrt (y + (x - y))" by simp
    also have "\<dots> \<le> sqrt y + sqrt (x - y)"
      using that by (intro sqrt_add_le_add_sqrt) simp_all
    finally show ?thesis using that by simp
  qed
  show ?thesis
  proof (cases "b \<le> a")
    case True
    then have "sqrt b \<le> sqrt a" by simp
    then show ?thesis using * [OF assms(2) True] by simp
  next
    case False
    then have ab: "a \<le> b" by simp
    then have "sqrt a \<le> sqrt b" by simp
    then show ?thesis using * [OF assms(1) ab] by (simp add: abs_minus_commute)
  qed
qed

lemma centred:
  assumes "0 \<le> a" and "a \<le> 1"
  defines "x \<equiv> round32 (a - 1 / 2)"
  shows "gl_sub (Num a) (Num (1 / 2)) = Num x"
    and "\<bar>x\<bar> \<le> 1 / 2" and "\<bar>x - (a - 1 / 2)\<bar> \<le> 1 / 2 ^ 25"
proof -
  have "\<bar>a - 1 / 2\<bar> \<le> 2 ^ 100" using assms(1,2) by simp
  then show "gl_sub (Num a) (Num (1 / 2)) = Num x"
    by (simp add: x_def fl32_finite)
  have "- (1 / 2) \<le> a - 1 / 2" "a - 1 / 2 \<le> 1 / 2" using assms(1,2) by simp_all
  moreover have "round32 (- (1 / 2)) = - (1 / 2)"
    by (simp only: round32_minus round32_exact_values)
  ultimately have "- (1 / 2) \<le> x \<and> x \<le> 1 / 2"
    unfolding x_def by (intro round32_range [OF _ round32_exact_values(1)])
  then show "\<bar>x\<bar> \<le> 1 / 2" by linarith
  have "\<bar>a - 1 / 2\<bar> < pow2 0" using assms(1,2) by (simp add: pow2_def abs_if)
  from round32_err_lt [OF this]
  show "\<bar>x - (a - 1 / 2)\<bar> \<le> 1 / 2 ^ 25" by (simp add: x_def pow2_def)
qed

lemma squared:
  assumes "\<bar>x\<bar> \<le> 1 / 2"
  defines "s \<equiv> round32 (x * x)"
  shows "gl_mul (Num x) (Num x) = Num s"
    and "0 \<le> s" and "s \<le> 1 / 4" and "\<bar>s - x * x\<bar> \<le> 1 / 2 ^ 25"
proof -
  have xx: "0 \<le> x * x" "x * x \<le> 1 / 4"
  proof -
    show "0 \<le> x * x" by simp
    have "\<bar>x\<bar> * \<bar>x\<bar> \<le> 1 / 2 * (1 / 2)"
      using assms(1) by (intro mult_mono) simp_all
    then show "x * x \<le> 1 / 4" by (simp add: abs_mult_self_eq)
  qed
  then have "\<bar>x * x\<bar> \<le> 2 ^ 100" by simp
  then show "gl_mul (Num x) (Num x) = Num s" by (simp add: s_def fl32_finite)
  from round32_range [OF round32_zero round32_exact_values(2) xx]
  show "0 \<le> s" "s \<le> 1 / 4" by (simp_all add: s_def)
  have "\<bar>x * x\<bar> < pow2 0" using xx by (simp add: pow2_def)
  from round32_err_lt [OF this]
  show "\<bar>s - x * x\<bar> \<le> 1 / 2 ^ 25" by (simp add: s_def pow2_def)
qed

lemma square_error:
  fixes x X :: real
  assumes "\<bar>x\<bar> \<le> 1 / 2" and "\<bar>X\<bar> \<le> 1 / 2" and "\<bar>x - X\<bar> \<le> 1 / 2 ^ 25"
  shows "\<bar>x * x - X * X\<bar> \<le> 1 / 2 ^ 25"
proof -
  have "x * x - X * X = (x - X) * (x + X)" by (simp add: algebra_simps)
  then have "\<bar>x * x - X * X\<bar> = \<bar>x - X\<bar> * \<bar>x + X\<bar>" by (simp add: abs_mult)
  also have "\<dots> \<le> 1 / 2 ^ 25 * 1"
  proof (rule mult_mono)
    show "\<bar>x - X\<bar> \<le> 1 / 2 ^ 25" by (rule assms(3))
    show "\<bar>x + X\<bar> \<le> 1" using assms(1,2) by linarith
  qed simp_all
  finally show ?thesis by simp
qed

lemma radial_distance:
  assumes "0 \<le> a" and "a \<le> 1" and "0 \<le> b" and "b \<le> 1"
  defines "x \<equiv> round32 (a - 1 / 2)" and "y \<equiv> round32 (b - 1 / 2)"
  defines "s \<equiv> round32 (round32 (x * x) + round32 (y * y))"
  defines "d \<equiv> round32 (sqrt s)"
  shows "gl_length (gl_sub (Num a) (Num (1 / 2)), gl_sub (Num b) (Num (1 / 2))) = Num d"
    and "0 \<le> d" and "d \<le> 1"
    and "\<bar>d - sqrt ((a - 1 / 2) * (a - 1 / 2) + (b - 1 / 2) * (b - 1 / 2))\<bar> \<le> 1 / 2 ^ 10"
proof -
  note cx = centred [OF assms(1,2), folded x_def]
  note cy = centred [OF assms(3,4), folded y_def]
  note qx = squared [OF cx(2)] and qy = squared [OF cy(2)]
  define sx where "sx = round32 (x * x)"
  define sy where "sy = round32 (y * y)"
  have s_def': "s = round32 (sx + sy)" by (simp add: s_def sx_def sy_def)
  have sum: "0 \<le> sx + sy" "sx + sy \<le> 1 / 2"
    using qx(2,3) qy(2,3) by (simp_all add: sx_def sy_def)
  have add: "gl_add (Num sx) (Num sy) = Num s"
    using sum by (simp add: s_def' fl32_finite)
  from round32_range [OF round32_zero round32_exact_values(1) sum]
  have s: "0 \<le> s" "s \<le> 1 / 2" by (simp_all add: s_def')
  have "\<bar>sx + sy\<bar> < pow2 0" using sum by (simp add: pow2_def)
  from round32_err_lt [OF this]
  have es: "\<bar>s - (sx + sy)\<bar> \<le> 1 / 2 ^ 25" by (simp add: s_def' pow2_def)
  have rt: "0 \<le> sqrt s" "sqrt s \<le> 1"
  proof -
    show "0 \<le> sqrt s" using s(1) by simp
    have "sqrt s \<le> sqrt 1" using s(2) by (intro real_sqrt_le_mono) simp
    then show "sqrt s \<le> 1" by simp
  qed
  from round32_range [OF round32_zero round32_exact_values(3) rt]
  show d: "0 \<le> d" "d \<le> 1" by (simp_all add: d_def)
  have "(1::real) \<le> 2 ^ 100" by simp
  then have "\<bar>sqrt s\<bar> \<le> 2 ^ 100" using rt by linarith
  then have "fl32 (sqrt s) = Num d" unfolding d_def by (rule fl32_finite)
  then have "gl_sqrt (Num s) = Num d"
    using s(1) by simp
  then show "gl_length (gl_sub (Num a) (Num (1 / 2)), gl_sub (Num b) (Num (1 / 2))) = Num d"
    using cx(1) cy(1) qx(1) qy(1) add by (simp add: sx_def sy_def)
  have "sqrt s < sqrt 1" using s(2) by (intro real_sqrt_less_mono) simp
  then have "\<bar>sqrt s\<bar> < pow2 0" using rt(1) by (simp add: pow2_def)
  from round32_err_lt [OF this]
  have ed: "\<bar>d - sqrt s\<bar> \<le> 1 / 2 ^ 25" by (simp add: d_def pow2_def)
  let ?X = "a - 1 / 2" and ?Y = "b - 1 / 2"
  have X: "\<bar>?X\<bar> \<le> 1 / 2" and Y: "\<bar>?Y\<bar> \<le> 1 / 2" using assms(1-4) by linarith+
  have "\<bar>sx - ?X * ?X\<bar> \<le> \<bar>sx - x * x\<bar> + \<bar>x * x - ?X * ?X\<bar>" by simp
  also have "\<dots> \<le> 1 / 2 ^ 25 + 1 / 2 ^ 25"
    using qx(4) square_error [OF cx(2) X cx(3)] by (simp add: sx_def)
  finally have ex: "\<bar>sx - ?X * ?X\<bar> \<le> 1 / 2 ^ 24" by simp
  have "\<bar>sy - ?Y * ?Y\<bar> \<le> \<bar>sy - y * y\<bar> + \<bar>y * y - ?Y * ?Y\<bar>" by simp
  also have "\<dots> \<le> 1 / 2 ^ 25 + 1 / 2 ^ 25"
    using qy(4) square_error [OF cy(2) Y cy(3)] by (simp add: sy_def)
  finally have ey: "\<bar>sy - ?Y * ?Y\<bar> \<le> 1 / 2 ^ 24" by simp
  have "\<bar>s - (?X * ?X + ?Y * ?Y)\<bar> \<le> 1 / 2 ^ 22"
  proof -
    define A where "A = ?X * ?X"
    define B where "B = ?Y * ?Y"
    have "\<bar>s - (A + B)\<bar> \<le> \<bar>s - (sx + sy)\<bar> + \<bar>sx - A\<bar> + \<bar>sy - B\<bar>" by linarith
    also have "\<dots> \<le> 1 / 2 ^ 25 + 1 / 2 ^ 24 + 1 / 2 ^ 24"
      using es ex ey unfolding A_def B_def by (intro add_mono)
    also have "\<dots> \<le> 1 / 2 ^ 22" by simp
    finally show ?thesis unfolding A_def B_def .
  qed
  then have "sqrt \<bar>s - (?X * ?X + ?Y * ?Y)\<bar> \<le> sqrt (1 / 2 ^ 22)"
    by (rule real_sqrt_le_mono)
  moreover have "sqrt (1 / 2 ^ 22 :: real) = 1 / 2 ^ 11"
    using real_sqrt_abs2 [of "1 / 2 ^ 11 :: real"] by simp
  moreover have "\<bar>sqrt s - sqrt (?X * ?X + ?Y * ?Y)\<bar> \<le> sqrt \<bar>s - (?X * ?X + ?Y * ?Y)\<bar>"
    using s(1) by (intro sqrt_diff_le) simp_all
  ultimately have er: "\<bar>sqrt s - sqrt (?X * ?X + ?Y * ?Y)\<bar> \<le> 1 / 2 ^ 11" by linarith
  define D where "D = sqrt (?X * ?X + ?Y * ?Y)"
  have "\<bar>d - D\<bar> \<le> \<bar>d - sqrt s\<bar> + \<bar>sqrt s - D\<bar>" by linarith
  also have "\<dots> \<le> 1 / 2 ^ 25 + 1 / 2 ^ 11"
    using ed er unfolding D_def by (intro add_mono)
  also have "\<dots> \<le> 1 / 2 ^ 10" by simp
  finally show "\<bar>d - sqrt (?X * ?X + ?Y * ?Y)\<bar> \<le> 1 / 2 ^ 10" unfolding D_def .
qed

lemma complement_error:
  assumes "0 \<le> d" and "d \<le> 1"
  shows "gl_sub (Num 1) (Num d) = Num (round32 (1 - d))"
    and "\<bar>round32 (1 - d) + d - 1\<bar> \<le> 1 / 2 ^ 25"
proof -
  have "\<bar>1 - d\<bar> \<le> 2 ^ 100" using assms by simp
  then show "gl_sub (Num 1) (Num d) = Num (round32 (1 - d))" by (simp add: fl32_finite)
  show "\<bar>round32 (1 - d) + d - 1\<bar> \<le> 1 / 2 ^ 25"
  proof (cases "d = 0")
    case True
    then show ?thesis by (simp add: round32_exact_values)
  next
    case False
    then have "\<bar>1 - d\<bar> < pow2 0" using assms by (simp add: pow2_def)
    from round32_err_lt [OF this]
    have "\<bar>round32 (1 - d) - (1 - d)\<bar> \<le> 1 / 2 ^ 25" by (simp add: pow2_def)
    then show ?thesis by (simp add: algebra_simps)
  qed
qed

text \<open>
  C8 (as amended). For every texture coordinate in the unit square the third pyramid
  face outputs the colour \<open>(r, d, 0)\<close>, where \<open>d\<close> is the distance from the
  coordinate to \<open>(0.5, 0.5)\<close> as computed in binary32, within \<open>2^-10\<close> of the exact
  distance, and \<open>r\<close> is \<open>1 - d\<close> rounded: red and green add up to 1 within
  \<open>2^-25\<close> and blue is 0. Its vertex shader projects the vertex position as it is.
\<close>

theorem radial_gradient_face:
  assumes "0 \<le> a" and "a \<le> 1" and "0 \<le> b" and "b \<le> 1"
  shows "(let x = round32 (a - 1 / 2);
              y = round32 (b - 1 / 2);
              d = round32 (sqrt (round32 (round32 (x * x) + round32 (y * y))));
              r = round32 (1 - d)
          in fragmentShader3 (Num a, Num b) = (Num r, Num d, Num 0, Num 1)
             \<and> \<bar>d - sqrt ((a - 1 / 2) * (a - 1 / 2) + (b - 1 / 2) * (b - 1 / 2))\<bar> \<le> 1 / 2 ^ 10
             \<and> \<bar>r + d - 1\<bar> \<le> 1 / 2 ^ 25)
    \<and> gl_Position (vertexShader3 P MV (px, py, pz) uv)
        = mat4_mul_vec4 (mat4_mul P MV) (px, py, pz, 1)"
proof -
  note rd = radial_distance [OF assms]
  note ce = complement_error [OF rd(2,3)]
  show ?thesis
    unfolding Let_def
    using rd(1,4) ce
    by (simp add: fragmentShader3_def vertexShader3_def Let_def)
qed

theorem radial_gradient_face_witness:
  "(0::real) \<le> 3 / 4 \<and> (3 / 4 :: real) \<le> 1
   \<and> fragmentShader3 (Num (3 / 4), Num (3 / 4))
       = (Num (5422787 / 2 ^ 23), Num (11863283 / 2 ^ 25), Num 0, Num 1)
   \<and> \<bar>5422787 / 2 ^ 23 + 11863283 / 2 ^ 25 - (1::real)\<bar> \<le> 1 / 2 ^ 25"
proof -
  have e: "round32 (3 / 4 - 1 / 2) = 1 / 4" "round32 (1 / 4 * (1 / 4)) = 1 / 16"
    "round32 (1 / 16 + 1 / 16) = 1 / 8"
    "round32 (1 - 11863283 / 2 ^ 25) = 5422787 / 2 ^ 23"
    by (simp_all add: fl32_eval)
  show ?thesis
    using radial_gradient_face [of "3 / 4" "3 / 4"]
    unfolding Let_def e round32_sqrt_eighth by simp
qed

text \<open>
  C8 as stated fails: at \<open>(0.75, 0.75)\<close> red is 0.64644659 and green is 0.35355338,
  and their sum is not 1.
\<close>

theorem radial_red_green_sum_not_one:
  "fragmentShader3 (Num (3 / 4), Num (3 / 4))
     = (Num (5422787 / 2 ^ 23), Num (11863283 / 2 ^ 25), Num 0, Num 1)
   \<and> (5422787 / 2 ^ 23 + 11863283 / 2 ^ 25 :: real) \<noteq> 1"
proof -
  have s: "fl32 (sqrt (1 / 8)) = Num (11863283 / 2 ^ 25)"
  proof -
    have "\<bar>sqrt (1 / 8 :: real)\<bar> \<le> 2 ^ 100"
    proof -
      have "sqrt (1 / 8 :: real) \<le> sqrt 1" by (intro real_sqrt_le_mono) simp
      moreover have "(1::real) \<le> 2 ^ 100" by simp
      moreover have "0 \<le> sqrt (1 / 8 :: real)" by simp
      ultimately show ?thesis by (simp only: real_sqrt_one)
    qed
    then show ?thesis by (simp only: fl32_finite round32_sqrt_eighth)
  qed
  have e: "fl32 (3 / 4 - 1 / 2) = Num (1 / 4)" "fl32 (1 / 4 * (1 / 4)) = Num (1 / 16)"
    "fl32 (1 / 16 + 1 / 16) = Num (1 / 8)"
    "fl32 (1 - 11863283 / 2 ^ 25) = Num (5422787 / 2 ^ 23)"
    by (simp_all add: fl32_eval)
  have len: "gl_length (gl_sub (Num (3 / 4)) (Num (1 / 2)), gl_sub (Num (3 / 4)) (Num (1 / 2)))
        = Num (11863283 / 2 ^ 25)"
    by (simp only: gl_sub.simps gl_length.simps gl_mul.simps gl_add.simps gl_sqrt.simps e s)
       simp
  have "fragmentShader3 (Num (3 / 4), Num (3 / 4))
     = (Num (5422787 / 2 ^ 23), Num (11863283 / 2 ^ 25), Num 0, Num 1)"
    unfolding fragmentShader3_def Let_def fst_conv snd_conv len
    by (simp only: gl_sub.simps e(4) fvec4_of.simps)
  moreover have "(5422787 / 2 ^ 23 + 11863283 / 2 ^ 25 :: real) \<noteq> 1" by simp
  ultimately show ?thesis by (rule conjI)
qed


end
